theory Spec2Isabelle
  imports Complex_Main "HOL-Library.Sublist" "HOL-Library.Multiset"
begin

text \<open>
  The two utilities of the repository that run bulk operations: the task runner
  (\<^verbatim>\<open>src/utils/concurrentRunner.ts\<close>) and the rate limiter (\<^verbatim>\<open>src/utils/rateLimiter.ts\<close>).
  JavaScript runs the code between two suspension points (\<^verbatim>\<open>await\<close>) without interruption;
  the model has one function for each such stretch of code.  The clock readings
  (\<^verbatim>\<open>Date.now()\<close>) are parameters of these functions.  Numbers that count things or give
  milliseconds are integers; token amounts are rationals.
\<close>

section \<open>Bounded task runner (src/utils/concurrentRunner.ts)\<close>

subsection \<open>Strings\<close>

text \<open>
  Error messages are ASCII strings.  \<^verbatim>\<open>String.prototype.includes\<close> is the search for
  a contiguous substring, \<^verbatim>\<open>toLowerCase\<close> maps the letters A to Z to a to z and leaves
  every other character as it is.
\<close>

fun includesStr :: "string \<Rightarrow> string \<Rightarrow> bool" where
  "includesStr [] sub = (sub = [])"
| "includesStr (c # cs) sub = (prefix sub (c # cs) \<or> includesStr cs sub)"

definition lowerChar :: "char \<Rightarrow> char" where
  "lowerChar c =
     (case map_of (zip ''ABCDEFGHIJKLMNOPQRSTUVWXYZ'' ''abcdefghijklmnopqrstuvwxyz'') c of
        Some l \<Rightarrow> l
      | None \<Rightarrow> c)"

definition toLowerCase :: "string \<Rightarrow> string" where
  "toLowerCase s = map lowerChar s"

text \<open>Decimal rendering of a number inside a template literal.\<close>

fun showNat :: "nat \<Rightarrow> string" where
  "showNat n =
     (if n < 10 then [''0123456789'' ! n] else showNat (n div 10) @ [''0123456789'' ! (n mod 10)])"

definition showInt :: "int \<Rightarrow> string" where
  "showInt i = (if i < 0 then CHR ''-'' # showNat (nat (- i)) else showNat (nat i))"

subsection \<open>Data model\<close>

datatype status = Success | Failed | Skipped

record ('t, 'r) TaskResult =
  task :: 't
  index :: nat
  status :: status
  result :: "'r option"
  error :: "string option"
  attempts :: nat

record TaskStats =
  total :: int
  completed :: int
  succeeded :: int
  failed :: int
  skipped :: int
  retrying :: int
  inProgress :: int

text \<open>
  The configuration, with the defaults of the destructuring in \<^verbatim>\<open>runConcurrentTasks\<close>
  already applied.  The observers (\<^verbatim>\<open>onProgress\<close>, \<^verbatim>\<open>onTaskStart\<close>, ...) are optional
  and return nothing; their calls are recorded as events.
\<close>

record Config =
  concurrency :: int
  timeoutMs :: int
  maxRetries :: int
  retryDelayMs :: int

definition defaultConfig :: Config where
  "defaultConfig = \<lparr>concurrency = 5, timeoutMs = 60000, maxRetries = 3, retryDelayMs = 2000\<rparr>"

text \<open>
  One call of the execution function, seen from \<^verbatim>\<open>withTimeout\<close>: the promise it returns
  resolves before the timer fires, rejects before the timer fires (the rejection is given
  by its message, as \<^verbatim>\<open>lastError\<close> keeps it), or is still pending when the timer fires.
  Nothing cancels a pending call: it stays in flight.
\<close>

datatype 'r attempt = Resolves 'r | Rejects string | Pending

definition withTimeout :: "'r attempt \<Rightarrow> string \<Rightarrow> string + 'r" where
  "withTimeout promise timeoutMessage =
     (case promise of
        Resolves r \<Rightarrow> Inr r
      | Rejects e \<Rightarrow> Inl e
      | Pending \<Rightarrow> Inl timeoutMessage)"

definition timeoutMessage :: "nat \<Rightarrow> int \<Rightarrow> string" where
  "timeoutMessage i ms = ''Task '' @ showNat i @ '' timed out after '' @ showInt ms @ ''ms''"

definition isRetryableError :: "string \<Rightarrow> bool" where
  "isRetryableError msg =
     (let message = toLowerCase msg in
        includesStr message ''timeout'' \<or>
        includesStr message ''network'' \<or>
        includesStr message ''fetch'' \<or>
        includesStr message ''econnreset'' \<or>
        includesStr message ''enotfound'' \<or>
        includesStr message ''socket'' \<or>
        includesStr message ''abort'' \<or>
        includesStr message ''429'' \<or>
        includesStr message ''503'' \<or>
        includesStr message ''502'')"

subsection \<open>processTask\<close>

text \<open>
  What \<^verbatim>\<open>processTask\<close> does is recorded as a list of events, in program order.
  \<open>Invoke k\<close> is the k-th call of the execution function, \<open>Settled k\<close> the moment its
  promise settles and wins the race, \<open>TimerFired k\<close> the moment the timer wins it.
  \<open>AwaitRace\<close> and \<open>AwaitDelay ms\<close> are the two suspension points; the events between
  two suspension points run without interruption.  The remaining events are the updates of
  the shared counters and the calls of the observers.
\<close>

datatype event =
    TaskStart
  | Invoke nat
  | AwaitRace
  | Settled nat
  | TimerFired nat
  | IncSucceeded
  | IncFailed
  | IncSkipped
  | IncRetrying
  | DecRetrying
  | Progress
  | TaskComplete
  | TaskError string bool
  | TaskSkip string
  | AwaitDelay int

definition raceEvent :: "'r attempt \<Rightarrow> nat \<Rightarrow> event" where
  "raceEvent promise k = (case promise of Pending \<Rightarrow> TimerFired k | _ \<Rightarrow> Settled k)"

definition backoffDelay :: "Config \<Rightarrow> nat \<Rightarrow> int" where
  "backoffDelay cfg n = min (retryDelayMs cfg * 2 ^ (n - 1)) 30000"

text \<open>
  The retry loop.  \<open>executor k\<close> is what the k-th call of the execution function for this
  task does.  The loop is entered with the current values of \<^verbatim>\<open>attempts\<close> and
  \<^verbatim>\<open>lastError\<close>; \<^verbatim>\<open>processTask\<close> enters it with 0 and \<^verbatim>\<open>undefined\<close>.  The branch of the
  \<^verbatim>\<open>catch\<close> block that does not retry calls \<^verbatim>\<open>onTaskError\<close> with \<^verbatim>\<open>willRetry = false\<close> and
  falls through to the loop condition, as the source does.
\<close>

function attemptLoop ::
  "Config \<Rightarrow> (nat \<Rightarrow> 'r attempt) \<Rightarrow> 't \<Rightarrow> nat \<Rightarrow> nat \<Rightarrow> string option
     \<Rightarrow> ('t, 'r) TaskResult \<times> event list" where
  "attemptLoop cfg executor t i att lastError =
     (if int att < maxRetries cfg then
        (let att' = att + 1;
             pre = (if att' = 1 then [TaskStart] else []) @ [Invoke att', AwaitRace]
         in case withTimeout (executor att') (timeoutMessage i (timeoutMs cfg)) of
              Inr r \<Rightarrow>
                (\<lparr>task = t, index = i, status = Success, result = Some r, error = None,
                  attempts = att'\<rparr>,
                 pre @ [raceEvent (executor att') att', IncSucceeded]
                   @ (if att' > 1 then [DecRetrying] else []) @ [TaskComplete])
            | Inl e \<Rightarrow>
                (let willRetry = (int att' < maxRetries cfg \<and> isRetryableError e);
                     handler =
                       (if willRetry
                        then [IncRetrying, Progress, TaskError e True,
                              AwaitDelay (backoffDelay cfg att'), DecRetrying]
                        else [TaskError e False]);
                     (res, rest) = attemptLoop cfg executor t i att' (Some e)
                 in (res, pre @ [raceEvent (executor att') att'] @ handler @ rest)))
      else
        (let isTimeout = (case lastError of None \<Rightarrow> False | Some e \<Rightarrow> includesStr e ''timed out'')
         in if isTimeout
            then (\<lparr>task = t, index = i, status = Skipped, result = None, error = lastError,
                   attempts = att\<rparr>,
                  [IncSkipped, TaskSkip ''timeout''])
            else (\<lparr>task = t, index = i, status = Failed, result = None, error = lastError,
                   attempts = att\<rparr>,
                  [IncFailed])))"
  by pat_completeness auto
termination
  by (relation "measure (\<lambda>(cfg, executor, t, i, att, lastError). nat (maxRetries cfg - int att))")
    auto

definition processTask ::
  "Config \<Rightarrow> (nat \<Rightarrow> 'r attempt) \<Rightarrow> 't \<Rightarrow> nat \<Rightarrow> ('t, 'r) TaskResult \<times> event list" where
  "processTask cfg executor t i = attemptLoop cfg executor t i 0 None"

subsection \<open>Reading a list of events\<close>

text \<open>
  \<open>invocations\<close> counts the calls of the execution function.  \<open>inFlight\<close> keeps the
  number of calls whose promise has not settled: a call enters with \<open>Invoke\<close> and leaves
  with \<open>Settled\<close>; a call that lost the race to the timer (\<open>TimerFired\<close>) does not leave.
  \<open>peakInFlight\<close> is the largest number reached.  \<open>applyEvents\<close> carries out the updates
  of the shared counters.  \<open>timeline\<close> keeps the calls of the execution function and the
  sleeps.  \<open>timedOut\<close> is the test \<^verbatim>\<open>processTask\<close> applies to \<^verbatim>\<open>lastError\<close> when the loop is over.
\<close>

fun isInvoke :: "event \<Rightarrow> bool" where
  "isInvoke (Invoke k) = True"
| "isInvoke _ = False"

definition invocations :: "event list \<Rightarrow> nat" where
  "invocations tr = length (filter isInvoke tr)"

fun inFlight :: "int \<Rightarrow> event \<Rightarrow> int" where
  "inFlight c (Invoke k) = c + 1"
| "inFlight c (Settled k) = c - 1"
| "inFlight c _ = c"

fun peakInFlight :: "int \<Rightarrow> event list \<Rightarrow> int" where
  "peakInFlight c [] = c"
| "peakInFlight c (e # tr) = max c (peakInFlight (inFlight c e) tr)"

fun applyEvent :: "event \<Rightarrow> TaskStats \<Rightarrow> TaskStats" where
  "applyEvent IncSucceeded s = s\<lparr>succeeded := succeeded s + 1\<rparr>"
| "applyEvent IncFailed s = s\<lparr>failed := failed s + 1\<rparr>"
| "applyEvent IncSkipped s = s\<lparr>skipped := skipped s + 1\<rparr>"
| "applyEvent IncRetrying s = s\<lparr>retrying := retrying s + 1\<rparr>"
| "applyEvent DecRetrying s = s\<lparr>retrying := retrying s - 1\<rparr>"
| "applyEvent _ s = s"

fun applyEvents :: "event list \<Rightarrow> TaskStats \<Rightarrow> TaskStats" where
  "applyEvents [] s = s"
| "applyEvents (e # es) s = applyEvents es (applyEvent e s)"

fun isTimeline :: "event \<Rightarrow> bool" where
  "isTimeline (Invoke k) = True"
| "isTimeline (AwaitDelay ms) = True"
| "isTimeline _ = False"

definition timeline :: "event list \<Rightarrow> event list" where
  "timeline tr = filter isTimeline tr"

definition timedOut :: "string option \<Rightarrow> bool" where
  "timedOut lastError = (case lastError of None \<Rightarrow> False | Some e \<Rightarrow> includesStr e ''timed out'')"

subsection \<open>Properties of the retry loop\<close>

declare attemptLoop.simps [simp del]

lemma attemptLoop_exhausted:
  "\<not> int att < maxRetries cfg \<Longrightarrow>
   attemptLoop cfg executor t i att lastError =
     (if (case lastError of None \<Rightarrow> False | Some e \<Rightarrow> includesStr e ''timed out'')
      then (\<lparr>task = t, index = i, status = Skipped, result = None, error = lastError,
             attempts = att\<rparr>, [IncSkipped, TaskSkip ''timeout''])
      else (\<lparr>task = t, index = i, status = Failed, result = None, error = lastError,
             attempts = att\<rparr>, [IncFailed]))"
  by (simp add: attemptLoop.simps)

lemma attemptLoop_success:
  "int att < maxRetries cfg \<Longrightarrow> executor (Suc att) = Resolves r \<Longrightarrow>
   attemptLoop cfg executor t i att lastError =
     (\<lparr>task = t, index = i, status = Success, result = Some r, error = None,
       attempts = Suc att\<rparr>,
      (if att = 0 then [TaskStart] else []) @ [Invoke (Suc att), AwaitRace, Settled (Suc att),
        IncSucceeded] @ (if att > 0 then [DecRetrying] else []) @ [TaskComplete])"
  by (simp add: attemptLoop.simps withTimeout_def raceEvent_def)

lemma attemptLoop_failure:
  "int att < maxRetries cfg \<Longrightarrow>
   withTimeout (executor (Suc att)) (timeoutMessage i (timeoutMs cfg)) = Inl e \<Longrightarrow>
   attemptLoop cfg executor t i att lastError =
     (fst (attemptLoop cfg executor t i (Suc att) (Some e)),
      (if att = 0 then [TaskStart] else []) @ [Invoke (Suc att), AwaitRace,
         raceEvent (executor (Suc att)) (Suc att)] @
      (if int (Suc att) < maxRetries cfg \<and> isRetryableError e
       then [IncRetrying, Progress, TaskError e True, AwaitDelay (backoffDelay cfg (Suc att)),
             DecRetrying]
       else [TaskError e False]) @
      snd (attemptLoop cfg executor t i (Suc att) (Some e)))"
  by (subst attemptLoop.simps) (simp add: Let_def split: prod.splits)

lemma withTimeout_cases:
  obtains r where "executor k = Resolves r"
  | e where "withTimeout (executor k) msg = Inl e"
  by (cases "executor k") (auto simp: withTimeout_def)

lemma applyEvents_append: "applyEvents (a @ b) s = applyEvents b (applyEvents a s)"
  by (induction a arbitrary: s) auto

lemma invocations_append: "invocations (a @ b) = invocations a + invocations b"
  by (simp add: invocations_def)

lemma attemptLoop_attempts_fail:
  assumes "\<And>k r. executor k \<noteq> Resolves r"
  shows "attempts (fst (attemptLoop cfg executor t i att le)) = max att (nat (maxRetries cfg))
       \<and> invocations (snd (attemptLoop cfg executor t i att le)) = nat (maxRetries cfg) - att"
proof (induction "nat (maxRetries cfg) - att" arbitrary: att le rule: less_induct)
  case less
  show ?case
  proof (cases "int att < maxRetries cfg")
    case False
    then show ?thesis
      by (simp add: attemptLoop_exhausted invocations_def)
  next
    case True
    obtain e where e: "withTimeout (executor (Suc att)) (timeoutMessage i (timeoutMs cfg)) = Inl e"
      using assms by (cases "executor (Suc att)") (auto simp: withTimeout_def)
    have "nat (maxRetries cfg) - Suc att < nat (maxRetries cfg) - att"
      using True by linarith
    from less [OF this, of "Some e"] True show ?thesis
      by (simp add: attemptLoop_failure [where executor = executor and att = att, OF True e]
            invocations_append)
        (auto simp: invocations_def raceEvent_def split: attempt.splits)
  qed
qed

lemma attemptLoop_status:
  "status (fst (attemptLoop cfg executor t i att le)) = Success \<or>
   status (fst (attemptLoop cfg executor t i att le)) =
     (if timedOut (error (fst (attemptLoop cfg executor t i att le))) then Skipped else Failed)"
proof (induction "nat (maxRetries cfg) - att" arbitrary: att le rule: less_induct)
  case less
  show ?case
  proof (cases "int att < maxRetries cfg")
    case False
    then show ?thesis
      by (simp add: attemptLoop_exhausted timedOut_def)
  next
    case True
    have dec: "nat (maxRetries cfg) - Suc att < nat (maxRetries cfg) - att"
      using True by linarith
    show ?thesis
    proof (cases rule: withTimeout_cases
        [where executor = executor and k = "Suc att" and msg = "timeoutMessage i (timeoutMs cfg)"])
      case (1 r)
      with True show ?thesis by (simp add: attemptLoop_success)
    next
      case (2 e)
      note e = this
      from less [OF dec, of "Some e"] show ?thesis
        by (simp add: attemptLoop_failure [where executor = executor and att = att, OF True e])
    qed
  qed
qed

text \<open>
  \<^verbatim>\<open>lastError\<close> at the exit of the loop is the error of the last attempt, attempt number
  \<^verbatim>\<open>maxRetries\<close>: every pass through the \<^verbatim>\<open>catch\<close> block overwrites it.
\<close>

lemma attemptLoop_last_error:
  assumes "status (fst (attemptLoop cfg executor t i att le)) \<noteq> Success"
  shows "if int att < maxRetries cfg
         then \<exists>e. withTimeout (executor (nat (maxRetries cfg))) (timeoutMessage i (timeoutMs cfg))
                    = Inl e \<and>
                  error (fst (attemptLoop cfg executor t i att le)) = Some e
         else error (fst (attemptLoop cfg executor t i att le)) = le"
  using assms
proof (induction "nat (maxRetries cfg) - att" arbitrary: att le rule: less_induct)
  case less
  show ?case
  proof (cases "int att < maxRetries cfg")
    case False
    then show ?thesis
      by (simp add: attemptLoop_exhausted)
  next
    case True
    have dec: "nat (maxRetries cfg) - Suc att < nat (maxRetries cfg) - att"
      using True by linarith
    show ?thesis
    proof (cases rule: withTimeout_cases
        [where executor = executor and k = "Suc att" and msg = "timeoutMessage i (timeoutMs cfg)"])
      case (1 r)
      with True less.prems show ?thesis by (simp add: attemptLoop_success)
    next
      case (2 e)
      note e = this
      have step: "fst (attemptLoop cfg executor t i att le) =
                  fst (attemptLoop cfg executor t i (Suc att) (Some e))"
        by (simp add: attemptLoop_failure [where executor = executor and att = att, OF True e])
      have ne: "status (fst (attemptLoop cfg executor t i (Suc att) (Some e))) \<noteq> Success"
        using less.prems by (simp add: step)
      note ih = less.hyps [OF dec ne]
      show ?thesis
      proof (cases "int (Suc att) < maxRetries cfg")
        case next_attempt: True
        with ih True show ?thesis by (simp add: step)
      next
        case False
        with True have "nat (maxRetries cfg) = Suc att" by linarith
        with ih False True e show ?thesis by (simp add: step)
      qed
    qed
  qed
qed

lemma succeeded_applyEvent:
  "succeeded (applyEvent e s) = succeeded s + (if e = IncSucceeded then 1 else 0)"
  by (cases e) auto

lemma failed_applyEvent:
  "failed (applyEvent e s) = failed s + (if e = IncFailed then 1 else 0)"
  by (cases e) auto

lemma skipped_applyEvent:
  "skipped (applyEvent e s) = skipped s + (if e = IncSkipped then 1 else 0)"
  by (cases e) auto

lemma attemptLoop_counters:
  "succeeded (applyEvents (snd (attemptLoop cfg executor t i att le)) s) =
     succeeded s + (if status (fst (attemptLoop cfg executor t i att le)) = Success then 1 else 0)
   \<and> failed (applyEvents (snd (attemptLoop cfg executor t i att le)) s) =
     failed s + (if status (fst (attemptLoop cfg executor t i att le)) = Failed then 1 else 0)
   \<and> skipped (applyEvents (snd (attemptLoop cfg executor t i att le)) s) =
     skipped s + (if status (fst (attemptLoop cfg executor t i att le)) = Skipped then 1 else 0)"
proof (induction "nat (maxRetries cfg) - att" arbitrary: att le s rule: less_induct)
  case less
  show ?case
  proof (cases "int att < maxRetries cfg")
    case False
    then show ?thesis
      by (simp add: attemptLoop_exhausted)
  next
    case True
    have dec: "nat (maxRetries cfg) - Suc att < nat (maxRetries cfg) - att"
      using True by linarith
    show ?thesis
    proof (cases rule: withTimeout_cases
        [where executor = executor and k = "Suc att" and msg = "timeoutMessage i (timeoutMs cfg)"])
      case (1 r)
      with True show ?thesis by (simp add: attemptLoop_success)
    next
      case (2 e)
      note e = this
      show ?thesis
        by (simp add: attemptLoop_failure [where executor = executor and att = att, OF True e]
            applyEvents_append less [OF dec, of "Some e"] raceEvent_def split: attempt.splits)
    qed
  qed
qed

lemma peakInFlight_append:
  "peakInFlight c (a @ b) = max (peakInFlight c a) (peakInFlight (foldl inFlight c a) b)"
proof (induction a arbitrary: c)
  case Nil
  show ?case by (cases b) auto
next
  case (Cons e a)
  have "c \<le> peakInFlight c (e # a)" by simp
  then show ?case by (simp add: Cons)
qed

lemma peakInFlight_ge: "c \<le> peakInFlight c tr"
  by (cases tr) auto

lemma inFlight_take_le: "foldl inFlight c (take n tr) \<le> peakInFlight c tr"
proof (induction tr arbitrary: c n)
  case Nil
  then show ?case by simp
next
  case (Cons e tr)
  show ?case
  proof (cases n)
    case 0
    then show ?thesis by simp
  next
    case (Suc m)
    have "foldl inFlight (inFlight c e) (take m tr) \<le> peakInFlight (inFlight c e) tr"
      by (rule Cons.IH)
    with Suc show ?thesis by simp
  qed
qed

lemma attemptLoop_inFlight:
  assumes "\<And>k. executor k \<noteq> Pending"
  shows "peakInFlight 0 (snd (attemptLoop cfg executor t i att le)) \<le> 1
       \<and> foldl inFlight 0 (snd (attemptLoop cfg executor t i att le)) = 0"
proof (induction "nat (maxRetries cfg) - att" arbitrary: att le rule: less_induct)
  case less
  show ?case
  proof (cases "int att < maxRetries cfg")
    case False
    then show ?thesis
      by (simp add: attemptLoop_exhausted)
  next
    case True
    have dec: "nat (maxRetries cfg) - Suc att < nat (maxRetries cfg) - att"
      using True by linarith
    show ?thesis
    proof (cases rule: withTimeout_cases
        [where executor = executor and k = "Suc att" and msg = "timeoutMessage i (timeoutMs cfg)"])
      case (1 r)
      with True show ?thesis by (simp add: attemptLoop_success)
    next
      case (2 e)
      note e = this
      have ev: "raceEvent (executor (Suc att)) (Suc att) = Settled (Suc att)"
        using assms [of "Suc att"] by (cases "executor (Suc att)") (auto simp: raceEvent_def)
      show ?thesis
        using less [OF dec, of "Some e"]
        by (auto simp add: attemptLoop_failure [where executor = executor and att = att, OF True e]
            peakInFlight_append ev)
    qed
  qed
qed

lemma timeline_append: "timeline (a @ b) = timeline a @ timeline b"
  by (simp add: timeline_def)

lemma attemptLoop_timeline:
  assumes "\<And>k. \<exists>m. executor k = Rejects m \<and> isRetryableError m"
  shows "timeline (snd (attemptLoop cfg executor t i att le)) =
         concat (map (\<lambda>n. [Invoke n, AwaitDelay (backoffDelay cfg n)])
                   [Suc att ..< nat (maxRetries cfg)])
         @ (if int att < maxRetries cfg then [Invoke (nat (maxRetries cfg))] else [])"
proof (induction "nat (maxRetries cfg) - att" arbitrary: att le rule: less_induct)
  case less
  show ?case
  proof (cases "int att < maxRetries cfg")
    case False
    then show ?thesis
      by (simp add: attemptLoop_exhausted timeline_def)
  next
    case True
    from assms obtain m where m: "executor (Suc att) = Rejects m" "isRetryableError m"
      by blast
    have e: "withTimeout (executor (Suc att)) (timeoutMessage i (timeoutMs cfg)) = Inl m"
      by (simp add: m withTimeout_def)
    have "nat (maxRetries cfg) - Suc att < nat (maxRetries cfg) - att"
      using True by linarith
    note IH = less [OF this, of "Some m"]
    note step = attemptLoop_failure [where executor = executor and att = att, OF True e, of t le]
    show ?thesis
    proof (cases "int (Suc att) < maxRetries cfg")
      case True
      then have "[Suc att ..< nat (maxRetries cfg)] = Suc att # [Suc (Suc att) ..< nat (maxRetries cfg)]"
        by (simp add: upt_conv_Cons)
      with IH True show ?thesis
        by (simp add: step timeline_append m)
          (auto simp add: timeline_def raceEvent_def m)
    next
      case False
      then have "[Suc att ..< nat (maxRetries cfg)] = []" by simp
      moreover from False have "[Suc (Suc att) ..< nat (maxRetries cfg)] = []" by simp
      moreover from False True have "nat (maxRetries cfg) = Suc att" by linarith
      ultimately show ?thesis using IH False
        by (simp add: step timeline_append m)
          (auto simp add: timeline_def raceEvent_def m)
    qed
  qed
qed

subsection \<open>Claims about processTask\<close>

text \<open>
  C1.  A task whose execution always rejects with a message outside the retryable
  allow-list is to be attempted once.  The loop of \<^verbatim>\<open>processTask\<close> has no exit in the
  branch that does not retry: with the default \<^verbatim>\<open>maxRetries = 3\<close> and the message
  \<^verbatim>\<open>invalid input\<close> the execution function is called three times and the outcome
  reports three attempts (its status is \<^verbatim>\<open>failed\<close>).
\<close>

theorem processTask_nonretryable_attempts:
  "\<not> isRetryableError ''invalid input'' \<and>
   attempts (fst (processTask defaultConfig (\<lambda>k. Rejects ''invalid input'' :: unit attempt) () 0)) = 3 \<and>
   status (fst (processTask defaultConfig (\<lambda>k. Rejects ''invalid input'' :: unit attempt) () 0)) = Failed \<and>
   invocations (snd (processTask defaultConfig (\<lambda>k. Rejects ''invalid input'' :: unit attempt) () 0)) = 3"
  by (simp add: processTask_def attemptLoop.simps defaultConfig_def withTimeout_def
      isRetryableError_def toLowerCase_def lowerChar_def invocations_def raceEvent_def)

text \<open>
  C5.  When the attempts are exhausted (the outcome is not a success), the status is
  \<^verbatim>\<open>skipped\<close> exactly when the last error's message contains \<^verbatim>\<open>timed out\<close>, and then
  \<^verbatim>\<open>skipped\<close> is incremented and \<^verbatim>\<open>failed\<close> is not; otherwise the status is
  \<^verbatim>\<open>failed\<close>, and \<^verbatim>\<open>failed\<close> is incremented and \<^verbatim>\<open>skipped\<close> is not.  The last error is
  the error of the last attempt, attempt number \<^verbatim>\<open>maxRetries\<close> (the rejection of the
  execution function, or the timeout message when the timer fired first), whatever the
  errors of the attempts before it were; it is the \<^verbatim>\<open>error\<close> field of the outcome.  With
  \<^verbatim>\<open>maxRetries\<close> below 1 there is no attempt and no error, and the status is \<^verbatim>\<open>failed\<close>.
  \<open>s\<close> are the counters before the task.
\<close>

theorem processTask_exhausted_status:
  assumes "processTask cfg executor t i = (res, tr)" and "status res \<noteq> Success"
  shows "(status res = Skipped \<longleftrightarrow> (\<exists>e. error res = Some e \<and> includesStr e ''timed out'')) \<and>
         (if status res = Skipped
          then skipped (applyEvents tr s) = skipped s + 1 \<and> failed (applyEvents tr s) = failed s
          else status res = Failed \<and>
               failed (applyEvents tr s) = failed s + 1 \<and> skipped (applyEvents tr s) = skipped s) \<and>
         (if 1 \<le> maxRetries cfg
          then \<exists>e. withTimeout (executor (nat (maxRetries cfg))) (timeoutMessage i (timeoutMs cfg))
                     = Inl e \<and>
                   error res = Some e \<and>
                   (status res = Skipped \<longleftrightarrow> includesStr e ''timed out'')
          else error res = None \<and> status res = Failed)"
proof -
  have res: "res = fst (attemptLoop cfg executor t i 0 None)"
    and tr: "tr = snd (attemptLoop cfg executor t i 0 None)"
    using assms(1) by (simp_all add: processTask_def)
  have st: "status res = (if timedOut (error res) then Skipped else Failed)"
    using attemptLoop_status [of cfg executor t i 0 None] assms(2) by (simp add: res)
  have t: "timedOut (error res) \<longleftrightarrow> (\<exists>e. error res = Some e \<and> includesStr e ''timed out'')"
    by (cases "error res") (simp_all add: timedOut_def)
  have c: "failed (applyEvents tr s) = failed s + (if status res = Failed then 1 else 0)"
    "skipped (applyEvents tr s) = skipped s + (if status res = Skipped then 1 else 0)"
    using attemptLoop_counters [of cfg executor t i 0 None s] by (simp_all add: res tr)
  have first: "(status res = Skipped \<longleftrightarrow> (\<exists>e. error res = Some e \<and> includesStr e ''timed out'')) \<and>
         (if status res = Skipped
          then skipped (applyEvents tr s) = skipped s + 1 \<and> failed (applyEvents tr s) = failed s
          else status res = Failed \<and>
               failed (applyEvents tr s) = failed s + 1 \<and> skipped (applyEvents tr s) = skipped s)"
    using st t c by (cases "timedOut (error res)") simp_all
  have le: "if int 0 < maxRetries cfg
         then \<exists>e. withTimeout (executor (nat (maxRetries cfg))) (timeoutMessage i (timeoutMs cfg))
                    = Inl e \<and> error res = Some e
         else error res = None"
    using attemptLoop_last_error [of cfg executor t i 0 None] assms(2) by (simp add: res)
  have last: "if 1 \<le> maxRetries cfg
          then \<exists>e. withTimeout (executor (nat (maxRetries cfg))) (timeoutMessage i (timeoutMs cfg))
                     = Inl e \<and>
                   error res = Some e \<and>
                   (status res = Skipped \<longleftrightarrow> includesStr e ''timed out'')
          else error res = None \<and> status res = Failed"
  proof (cases "1 \<le> maxRetries cfg")
    case True
    with le obtain e
      where e: "withTimeout (executor (nat (maxRetries cfg))) (timeoutMessage i (timeoutMs cfg)) = Inl e"
        and r: "error res = Some e"
      by auto
    have "status res = Skipped \<longleftrightarrow> includesStr e ''timed out''"
      using st by (simp add: r timedOut_def)
    with True e r show ?thesis by simp
  next
    case False
    with le have "error res = None" by simp
    with st False show ?thesis by (simp add: timedOut_def)
  qed
  show ?thesis
    using first last by blast
qed

theorem processTask_exhausted_status_witness:
  "processTask defaultConfig
     (\<lambda>k. if k = 3 then Rejects ''invalid input'' else Pending :: unit attempt) () 0 =
     (\<lparr>task = (), index = 0, status = Failed, result = None,
        error = Some ''invalid input'', attempts = 3\<rparr>,
      [TaskStart, Invoke 1, AwaitRace, TimerFired 1,
       TaskError ''Task 0 timed out after 60000ms'' False, Invoke 2, AwaitRace,
       TimerFired 2, TaskError ''Task 0 timed out after 60000ms'' False,
       Invoke 3, AwaitRace, Settled 3,
       TaskError ''invalid input'' False, IncFailed]) \<and>
   withTimeout ((\<lambda>k. if k = 3 then Rejects ''invalid input'' else Pending :: unit attempt)
       (nat (maxRetries defaultConfig))) (timeoutMessage 0 (timeoutMs defaultConfig))
     = Inl ''invalid input'' \<and>
   \<not> includesStr ''invalid input'' ''timed out'' \<and>
   failed (applyEvents (snd (processTask defaultConfig
       (\<lambda>k. if k = 3 then Rejects ''invalid input'' else Pending :: unit attempt) () 0))
      \<lparr>total = 1, completed = 0, succeeded = 0, failed = 0, skipped = 0, retrying = 0,
       inProgress = 1\<rparr>) = 1 \<and>
   processTask defaultConfig
     (\<lambda>k. if k = 3 then Pending else Rejects ''invalid input'' :: unit attempt) () 0 =
     (\<lparr>task = (), index = 0, status = Skipped, result = None,
        error = Some ''Task 0 timed out after 60000ms'', attempts = 3\<rparr>,
      [TaskStart, Invoke 1, AwaitRace, Settled 1,
       TaskError ''invalid input'' False, Invoke 2, AwaitRace,
       Settled 2, TaskError ''invalid input'' False,
       Invoke 3, AwaitRace, TimerFired 3,
       TaskError ''Task 0 timed out after 60000ms'' False, IncSkipped, TaskSkip ''timeout'']) \<and>
   includesStr ''Task 0 timed out after 60000ms'' ''timed out'' \<and>
   skipped (applyEvents (snd (processTask defaultConfig
       (\<lambda>k. if k = 3 then Pending else Rejects ''invalid input'' :: unit attempt) () 0))
      \<lparr>total = 1, completed = 0, succeeded = 0, failed = 0, skipped = 0, retrying = 0,
       inProgress = 1\<rparr>) = 1"
proof -
  let ?late = "\<lambda>k. if k = 3 then Rejects ''invalid input'' else Pending :: unit attempt"
  let ?early = "\<lambda>k. if k = 3 then Pending else Rejects ''invalid input'' :: unit attempt"
  let ?s = "\<lparr>total = 1, completed = 0, succeeded = 0, failed = 0, skipped = 0, retrying = 0,
       inProgress = 1\<rparr>"
  let ?res1 = "\<lparr>task = (), index = 0, status = Failed, result = None,
        error = Some ''invalid input'', attempts = 3\<rparr> :: (unit, unit) TaskResult"
  let ?tr1 = "[TaskStart, Invoke 1, AwaitRace, TimerFired 1,
       TaskError ''Task 0 timed out after 60000ms'' False, Invoke 2, AwaitRace,
       TimerFired 2, TaskError ''Task 0 timed out after 60000ms'' False,
       Invoke 3, AwaitRace, Settled 3,
       TaskError ''invalid input'' False, IncFailed]"
  let ?res2 = "\<lparr>task = (), index = 0, status = Skipped, result = None,
        error = Some ''Task 0 timed out after 60000ms'', attempts = 3\<rparr> :: (unit, unit) TaskResult"
  let ?tr2 = "[TaskStart, Invoke 1, AwaitRace, Settled 1,
       TaskError ''invalid input'' False, Invoke 2, AwaitRace,
       Settled 2, TaskError ''invalid input'' False,
       Invoke 3, AwaitRace, TimerFired 3,
       TaskError ''Task 0 timed out after 60000ms'' False, IncSkipped, TaskSkip ''timeout'']"
  have run1: "processTask defaultConfig ?late () 0 = (?res1, ?tr1)"
    by (simp add: processTask_def attemptLoop.simps defaultConfig_def withTimeout_def
      isRetryableError_def toLowerCase_def lowerChar_def raceEvent_def timeoutMessage_def
      showInt_def)
  have run2: "processTask defaultConfig ?early () 0 = (?res2, ?tr2)"
    by (simp add: processTask_def attemptLoop.simps defaultConfig_def withTimeout_def
      isRetryableError_def toLowerCase_def lowerChar_def raceEvent_def timeoutMessage_def
      showInt_def)
  have ne1: "status ?res1 \<noteq> Success" and ne2: "status ?res2 \<noteq> Success" by simp_all
  have one: "1 \<le> maxRetries defaultConfig" by (simp add: defaultConfig_def)
  from processTask_exhausted_status [OF run1 ne1, of ?s]
    processTask_exhausted_status [OF run2 ne2, of ?s]
  have "\<not> includesStr ''invalid input'' ''timed out''"
    and "failed (applyEvents ?tr1 ?s) = 1"
    and "withTimeout (?late (nat (maxRetries defaultConfig)))
           (timeoutMessage 0 (timeoutMs defaultConfig)) = Inl ''invalid input''"
    and "includesStr ''Task 0 timed out after 60000ms'' ''timed out''"
    and "skipped (applyEvents ?tr2 ?s) = 1"
    using one by auto
  then show ?thesis
    using run1 run2 by simp
qed

text \<open>
  C6.  A task whose execution always rejects with a retryable message (the same one or
  a different one at each attempt) is attempted \<^verbatim>\<open>maxRetries\<close> times (not at all when
  \<^verbatim>\<open>maxRetries\<close> is below 1), and between attempt \<open>n\<close> and attempt \<open>n + 1\<close> the runner
  sleeps \<open>min (retryDelayMs * 2 ^ (n - 1)) 30000\<close> milliseconds: the calls of the execution
  function and the sleeps alternate as stated.
\<close>

theorem processTask_retryable_backoff:
  assumes "\<And>k. \<exists>m. executor k = Rejects m \<and> isRetryableError m"
  shows "attempts (fst (processTask cfg executor t i)) = nat (maxRetries cfg) \<and>
         invocations (snd (processTask cfg executor t i)) = nat (maxRetries cfg) \<and>
         timeline (snd (processTask cfg executor t i)) =
           concat (map (\<lambda>n. [Invoke n, AwaitDelay (min (retryDelayMs cfg * 2 ^ (n - 1)) 30000)])
                     [1 ..< nat (maxRetries cfg)])
           @ (if 1 \<le> maxRetries cfg then [Invoke (nat (maxRetries cfg))] else [])"
proof -
  have "executor k \<noteq> Resolves r" for k r
    using assms [of k] by auto
  then have "attempts (fst (attemptLoop cfg executor t i 0 None)) = max 0 (nat (maxRetries cfg))
      \<and> invocations (snd (attemptLoop cfg executor t i 0 None)) = nat (maxRetries cfg) - 0"
    by (rule attemptLoop_attempts_fail)
  moreover have "timeline (snd (attemptLoop cfg executor t i 0 None)) =
         concat (map (\<lambda>n. [Invoke n, AwaitDelay (backoffDelay cfg n)]) [Suc 0 ..< nat (maxRetries cfg)])
         @ (if int 0 < maxRetries cfg then [Invoke (nat (maxRetries cfg))] else [])"
    using assms by (rule attemptLoop_timeline)
  ultimately show ?thesis
    by (simp add: processTask_def backoffDelay_def)
qed

text \<open>With the default base delay of 2000 ms the sleeps are 2000, 4000, 8000, 16000 and then 30000.\<close>

theorem processTask_retryable_backoff_witness:
  "isRetryableError ''read ECONNRESET'' \<and>
   attempts (fst (processTask (defaultConfig\<lparr>maxRetries := 7\<rparr>)
                    (\<lambda>k. Rejects ''read ECONNRESET'' :: unit attempt) () 0)) = 7 \<and>
   timeline (snd (processTask (defaultConfig\<lparr>maxRetries := 7\<rparr>)
                    (\<lambda>k. Rejects ''read ECONNRESET'' :: unit attempt) () 0)) =
     [Invoke 1, AwaitDelay 2000, Invoke 2, AwaitDelay 4000, Invoke 3, AwaitDelay 8000,
      Invoke 4, AwaitDelay 16000, Invoke 5, AwaitDelay 30000, Invoke 6, AwaitDelay 30000,
      Invoke 7]"
proof -
  have r: "isRetryableError ''read ECONNRESET''"
    by (simp add: isRetryableError_def toLowerCase_def lowerChar_def)
  have "[1 ..< 7] = [1, 2, 3, 4, 5, 6::nat]"
    by (simp add: upt_conv_Cons)
  with r show ?thesis
    using processTask_retryable_backoff
        [of "\<lambda>k. Rejects ''read ECONNRESET'' :: unit attempt"
        "defaultConfig\<lparr>maxRetries := 7\<rparr>" "()" 0]
    by (simp add: defaultConfig_def)
qed

text \<open>
  C8.  The claim: no two calls of a task's execution function are in flight at the same
  time, also across timed-out attempts and their retries.  A call is in flight from
  \<open>Invoke\<close> until its promise settles; \<open>foldl inFlight 0 p\<close> counts the calls in flight
  after the events \<open>p\<close>.  Every task is handled by one call of \<^verbatim>\<open>processTask\<close> (lemma
  \<open>poolInv_distinct\<close> below: no index is held by two workers, or held again after its
  outcome was recorded), so the calls of the execution function for a task are those of
  one loop.  When the timer wins the race nothing stops the pending call, and the next
  attempt calls the execution function again: two calls are in flight.
\<close>

theorem processTask_overlap_counterexample:
  "take 6 (snd (processTask defaultConfig (\<lambda>k. Pending :: unit attempt) () 0)) =
     [TaskStart, Invoke 1, AwaitRace, TimerFired 1,
      TaskError ''Task 0 timed out after 60000ms'' False, Invoke 2] \<and>
   foldl inFlight 0
     (take 6 (snd (processTask defaultConfig (\<lambda>k. Pending :: unit attempt) () 0))) = 2"
  by (simp add: processTask_def attemptLoop.simps defaultConfig_def withTimeout_def
      isRetryableError_def toLowerCase_def lowerChar_def raceEvent_def timeoutMessage_def
      showInt_def)

text \<open>
  C8, amended.  As long as every call of the execution function settles before its timer
  fires, at most one call is in flight at every point of \<^verbatim>\<open>processTask\<close>.
\<close>

theorem processTask_no_overlap:
  assumes "\<And>k. executor k \<noteq> Pending"
  shows "foldl inFlight 0 (take n (snd (processTask cfg executor t i))) \<le> 1"
proof -
  have "foldl inFlight 0 (take n (snd (attemptLoop cfg executor t i 0 None)))
          \<le> peakInFlight 0 (snd (attemptLoop cfg executor t i 0 None))"
    by (rule inFlight_take_le)
  also have "\<dots> \<le> 1"
    using attemptLoop_inFlight [of executor cfg t i 0 None] assms by blast
  finally show ?thesis
    by (simp add: processTask_def)
qed

theorem processTask_no_overlap_witness:
  "(\<forall>k. (\<lambda>k. Rejects ''read ECONNRESET'' :: unit attempt) k \<noteq> Pending) \<and>
   foldl inFlight 0
     (take 10 (snd (processTask defaultConfig (\<lambda>k. Rejects ''read ECONNRESET'' :: unit attempt) () 0)))
     \<le> 1"
  using processTask_no_overlap
    [of "\<lambda>k. Rejects ''read ECONNRESET'' :: unit attempt" 10 defaultConfig "()" 0]
  by simp

subsection \<open>The worker pool\<close>

fun isAwait :: "event \<Rightarrow> bool" where
  "isAwait AwaitRace = True"
| "isAwait (AwaitDelay ms) = True"
| "isAwait _ = False"

text \<open>
  A worker is inside \<^verbatim>\<open>await processTask(task, index)\<close>, with the events \<^verbatim>\<open>processTask\<close> has
  still to perform and the outcome it will return (no events left: \<^verbatim>\<open>processTask\<close> has
  returned and the worker's continuation is due), or it has left its loop.
\<close>

datatype ('t, 'r) worker = Running "event list" "('t, 'r) TaskResult" | Finished

record ('t, 'r) Run =
  queueIndex :: nat
  results :: "('t, 'r) TaskResult list"
  stats :: TaskStats
  workers :: "('t, 'r) worker list"

text \<open>The events up to the next suspension point, applied to the shared counters.\<close>

fun runSegment :: "event list \<Rightarrow> TaskStats \<Rightarrow> event list \<times> TaskStats" where
  "runSegment [] s = ([], s)"
| "runSegment (e # es) s = (if isAwait e then (es, s) else runSegment es (applyEvent e s))"

text \<open>
  The loop of \<^verbatim>\<open>worker\<close> from its condition to the first suspension point inside
  \<^verbatim>\<open>processTask\<close>.  \<open>executor t i k\<close> is what the k-th call \<^verbatim>\<open>executor(t, i)\<close> does.
\<close>

definition workerLoop ::
  "Config \<Rightarrow> ('t \<Rightarrow> nat \<Rightarrow> nat \<Rightarrow> 'r attempt) \<Rightarrow> 't list \<Rightarrow> ('t, 'r) Run
     \<Rightarrow> ('t, 'r) worker \<times> ('t, 'r) Run" where
  "workerLoop cfg executor tasks run =
     (if queueIndex run < length tasks then
        (let currentIndex = queueIndex run;
             run1 = run\<lparr>queueIndex := queueIndex run + 1\<rparr>
         in if currentIndex \<ge> length tasks then (Finished, run1)
            else
              (let t = tasks ! currentIndex;
                   s1 = (stats run1)\<lparr>inProgress := inProgress (stats run1) + 1\<rparr>;
                   (res, tr) = processTask cfg (executor t currentIndex) t currentIndex;
                   (rest, s2) = runSegment tr s1
               in (Running rest res, run1\<lparr>stats := s2\<rparr>)))
      else (Finished, run))"

text \<open>Worker \<open>w\<close> runs from the suspension point it waits at to its next one.\<close>

definition resume ::
  "Config \<Rightarrow> ('t \<Rightarrow> nat \<Rightarrow> nat \<Rightarrow> 'r attempt) \<Rightarrow> 't list \<Rightarrow> nat \<Rightarrow> ('t, 'r) Run
     \<Rightarrow> ('t, 'r) Run" where
  "resume cfg executor tasks w run =
     (if w < length (workers run) then
        (case workers run ! w of
           Finished \<Rightarrow> run
         | Running tr res \<Rightarrow>
             (if tr = [] then
                (let run1 = run\<lparr>results := results run @ [res],
                               stats := (stats run)\<lparr>inProgress := inProgress (stats run) - 1,
                                                    completed := completed (stats run) + 1\<rparr>\<rparr>;
                     (wk, run2) = workerLoop cfg executor tasks run1
                 in run2\<lparr>workers := (workers run2)[w := wk]\<rparr>)
              else
                (let (rest, s') = runSegment tr (stats run)
                 in run\<lparr>stats := s', workers := (workers run)[w := Running rest res]\<rparr>)))
      else run)"

text \<open>The loop that starts the workers: each runs at once up to its first suspension point.\<close>

fun startWorkers ::
  "Config \<Rightarrow> ('t \<Rightarrow> nat \<Rightarrow> nat \<Rightarrow> 'r attempt) \<Rightarrow> 't list \<Rightarrow> nat \<Rightarrow> ('t, 'r) Run
     \<Rightarrow> ('t, 'r) Run" where
  "startWorkers cfg executor tasks 0 run = run"
| "startWorkers cfg executor tasks (Suc n) run =
     (let (wk, run1) = workerLoop cfg executor tasks run
      in startWorkers cfg executor tasks n (run1\<lparr>workers := workers run1 @ [wk]\<rparr>))"

text \<open>The workers that have not left their loops, by position.\<close>

definition pendingWorkers :: "('t, 'r) Run \<Rightarrow> nat list" where
  "pendingWorkers run = filter (\<lambda>w. workers run ! w \<noteq> Finished) [0 ..< length (workers run)]"

subsection \<open>Every turn of a worker brings the run closer to its end\<close>

text \<open>
  \<open>work\<close> bounds the turns that are left: a worker inside \<^verbatim>\<open>processTask\<close> needs at most one
  turn per remaining event and one more to record the outcome, and \<^verbatim>\<open>processTask\<close> performs
  at most \<open>9 * maxRetries + 2\<close> events for a task not yet claimed.
\<close>

fun load :: "('t, 'r) worker \<Rightarrow> nat" where
  "load Finished = 0"
| "load (Running tr res) = Suc (length tr)"

definition work :: "Config \<Rightarrow> 't list \<Rightarrow> ('t, 'r) Run \<Rightarrow> nat" where
  "work cfg tasks run =
     (length tasks - queueIndex run) * (9 * nat (maxRetries cfg) + 4)
     + sum_list (map load (workers run))"

lemma runSegment_length: "length (fst (runSegment tr s)) \<le> length tr"
  by (induction tr arbitrary: s) (auto intro: le_SucI)

lemma runSegment_shorter: "tr \<noteq> [] \<Longrightarrow> length (fst (runSegment tr s)) < length tr"
  by (cases tr) (auto simp: runSegment_length less_Suc_eq_le)

lemma attemptLoop_length:
  "length (snd (attemptLoop cfg executor t i att le)) \<le> 9 * (nat (maxRetries cfg) - att) + 2"
proof (induction "nat (maxRetries cfg) - att" arbitrary: att le rule: less_induct)
  case less
  show ?case
  proof (cases "int att < maxRetries cfg")
    case False
    then show ?thesis
      by (simp add: attemptLoop_exhausted)
  next
    case True
    have dec: "nat (maxRetries cfg) - Suc att < nat (maxRetries cfg) - att"
      using True by linarith
    then have m: "nat (maxRetries cfg) - att = Suc (nat (maxRetries cfg) - Suc att)"
      by linarith
    show ?thesis
    proof (cases rule: withTimeout_cases
        [where executor = executor and k = "Suc att" and msg = "timeoutMessage i (timeoutMs cfg)"])
      case (1 r)
      with True show ?thesis by (simp add: attemptLoop_success m)
    next
      case (2 e)
      from less [OF dec, of "Some e"] show ?thesis
        by (auto simp add: attemptLoop_failure [where executor = executor and att = att, OF True 2] m)
    qed
  qed
qed

lemma processTask_length:
  "length (snd (processTask cfg executor t i)) \<le> 9 * nat (maxRetries cfg) + 2"
  using attemptLoop_length [of cfg executor t i 0 None] by (simp add: processTask_def)

lemma sum_list_load_update:
  "w < length ws \<Longrightarrow>
   sum_list (map load (ws[w := x])) + load (ws ! w) = sum_list (map load ws) + load x"
proof (induction ws arbitrary: w)
  case Nil
  then show ?case by simp
next
  case (Cons a ws)
  then show ?case by (cases w) auto
qed

lemma workerLoop_workers [simp]:
  "workers (snd (workerLoop cfg executor tasks run)) = workers run"
  by (simp add: workerLoop_def Let_def case_prod_beta)

lemma workerLoop_cost:
  "(length tasks - queueIndex (snd (workerLoop cfg executor tasks run))) * (9 * nat (maxRetries cfg) + 4)
     + load (fst (workerLoop cfg executor tasks run))
   \<le> (length tasks - queueIndex run) * (9 * nat (maxRetries cfg) + 4)"
proof (cases "queueIndex run < length tasks")
  case False
  then show ?thesis by (simp add: workerLoop_def)
next
  case True
  let ?i = "queueIndex run"
  let ?tr = "snd (processTask cfg (executor (tasks ! ?i) ?i) (tasks ! ?i) ?i)"
  let ?s1 = "(stats run)\<lparr>inProgress := inProgress (stats run) + 1\<rparr>"
  have wl: "fst (workerLoop cfg executor tasks run) =
              Running (fst (runSegment ?tr ?s1))
                (fst (processTask cfg (executor (tasks ! ?i) ?i) (tasks ! ?i) ?i))"
    "queueIndex (snd (workerLoop cfg executor tasks run)) = Suc ?i"
    using True by (simp_all add: workerLoop_def Let_def case_prod_beta)
  have "length (fst (runSegment ?tr ?s1)) \<le> 9 * nat (maxRetries cfg) + 2"
    using runSegment_length [of ?tr ?s1] processTask_length [of cfg "executor (tasks ! ?i) ?i" "tasks ! ?i" ?i]
    by linarith
  moreover have "length tasks - ?i = Suc (length tasks - Suc ?i)"
    using True by simp
  ultimately show ?thesis
    by (simp add: wl)
qed

lemma pendingWorkers_mem:
  "w \<in> set (pendingWorkers run) \<longleftrightarrow> w < length (workers run) \<and> workers run ! w \<noteq> Finished"
  by (auto simp: pendingWorkers_def)

lemma resume_decreases:
  assumes "w \<in> set (pendingWorkers run)"
  shows "work cfg tasks (resume cfg executor tasks w run) < work cfg tasks run"
proof -
  from assms have w: "w < length (workers run)" and nf: "workers run ! w \<noteq> Finished"
    by (simp_all add: pendingWorkers_mem)
  then obtain tr res where r: "workers run ! w = Running tr res"
    by (cases "workers run ! w") auto
  show ?thesis
  proof (cases "tr = []")
    case True
    let ?run1 = "run\<lparr>results := results run @ [res],
                   stats := (stats run)\<lparr>inProgress := inProgress (stats run) - 1,
                                        completed := completed (stats run) + 1\<rparr>\<rparr>"
    let ?wl = "workerLoop cfg executor tasks ?run1"
    have res: "resume cfg executor tasks w run = (snd ?wl)\<lparr>workers := (workers run)[w := fst ?wl]\<rparr>"
      using w r True by (simp add: resume_def Let_def case_prod_beta)
    have "sum_list (map load ((workers run)[w := fst ?wl])) + load (workers run ! w) =
          sum_list (map load (workers run)) + load (fst ?wl)"
      using w by (rule sum_list_load_update)
    moreover have "load (workers run ! w) = 1"
      using r True by simp
    moreover note workerLoop_cost [of tasks cfg executor ?run1]
    ultimately show ?thesis
      by (simp add: res work_def)
  next
    case False
    let ?rs = "runSegment tr (stats run)"
    have res: "resume cfg executor tasks w run =
               run\<lparr>stats := snd ?rs, workers := (workers run)[w := Running (fst ?rs) res]\<rparr>"
      using w r False by (simp add: resume_def Let_def case_prod_beta)
    have "sum_list (map load ((workers run)[w := Running (fst ?rs) res])) + load (workers run ! w) =
          sum_list (map load (workers run)) + load (Running (fst ?rs) res)"
      using w by (rule sum_list_load_update)
    moreover have "load (Running (fst ?rs) res) < load (workers run ! w)"
      using runSegment_shorter [OF False, of "stats run"] r by simp
    ultimately show ?thesis
      by (simp add: res work_def)
  qed
qed

text \<open>
  \<^verbatim>\<open>await Promise.all(workers)\<close>: the workers take turns until all have left their loops.
  Which of the waiting workers runs next is up to the timing of the execution functions
  and the timers; \<open>sched\<close> chooses it at every step.
\<close>

function runWorkers ::
  "Config \<Rightarrow> ('t \<Rightarrow> nat \<Rightarrow> nat \<Rightarrow> 'r attempt) \<Rightarrow> 't list \<Rightarrow> (nat \<Rightarrow> nat) \<Rightarrow> nat
     \<Rightarrow> ('t, 'r) Run \<Rightarrow> ('t, 'r) Run" where
  "runWorkers cfg executor tasks sched n run =
     (if pendingWorkers run = [] then run
      else runWorkers cfg executor tasks sched (Suc n)
             (resume cfg executor tasks
                (pendingWorkers run ! (sched n mod length (pendingWorkers run))) run))"
  by pat_completeness auto
termination
proof (relation "measure (\<lambda>(cfg, executor, tasks, sched, n, run). work cfg tasks run)")
  show "wf (measure (\<lambda>(cfg, executor, tasks, sched, n, run). work cfg tasks run))"
    by simp
next
  fix cfg :: Config and executor :: "'t \<Rightarrow> nat \<Rightarrow> nat \<Rightarrow> 'r attempt" and tasks :: "'t list"
    and sched :: "nat \<Rightarrow> nat" and n :: nat and run :: "('t, 'r) Run"
  assume ne: "pendingWorkers run \<noteq> []"
  then have "pendingWorkers run ! (sched n mod length (pendingWorkers run)) \<in> set (pendingWorkers run)"
    by simp
  from resume_decreases [OF this]
  show "((cfg, executor, tasks, sched, Suc n,
          resume cfg executor tasks
            (pendingWorkers run ! (sched n mod length (pendingWorkers run))) run),
         (cfg, executor, tasks, sched, n, run))
        \<in> measure (\<lambda>(cfg, executor, tasks, sched, n, run). work cfg tasks run)"
    by simp
qed

definition initialRun :: "'t list \<Rightarrow> ('t, 'r) Run" where
  "initialRun tasks =
     \<lparr>queueIndex = 0, results = [],
      stats = \<lparr>total = int (length tasks), completed = 0, succeeded = 0, failed = 0,
               skipped = 0, retrying = 0, inProgress = 0\<rparr>,
      workers = []\<rparr>"

text \<open>
  The state when \<^verbatim>\<open>Promise.all\<close> has resolved: \<open>workerCount\<close> workers were started and
  have all left their loops.
\<close>

definition finalRun ::
  "Config \<Rightarrow> ('t \<Rightarrow> nat \<Rightarrow> nat \<Rightarrow> 'r attempt) \<Rightarrow> 't list \<Rightarrow> (nat \<Rightarrow> nat) \<Rightarrow> ('t, 'r) Run" where
  "finalRun cfg executor tasks sched =
     (let workerCount = min (concurrency cfg) (int (length tasks))
      in runWorkers cfg executor tasks sched 0
           (startWorkers cfg executor tasks (nat workerCount) (initialRun tasks)))"

definition runConcurrentTasks ::
  "Config \<Rightarrow> ('t \<Rightarrow> nat \<Rightarrow> nat \<Rightarrow> 'r attempt) \<Rightarrow> 't list \<Rightarrow> (nat \<Rightarrow> nat)
     \<Rightarrow> ('t, 'r) TaskResult list" where
  "runConcurrentTasks cfg executor tasks sched =
     sort_key index (results (finalRun cfg executor tasks sched))"

subsection \<open>Invariant of the run\<close>

text \<open>
  At every suspension point: the indices below \<^verbatim>\<open>queueIndex\<close> are exactly those of the
  recorded outcomes and of the tasks the workers hold, each once; \<open>succeeded + failed +
  skipped\<close> plus the increments the running tasks still owe is \<^verbatim>\<open>queueIndex\<close>; a worker has
  left its loop only when the queue was used up; and every outcome, recorded or held, is
  the one \<^verbatim>\<open>processTask\<close> computes for its index.
\<close>

fun isTerminal :: "event \<Rightarrow> bool" where
  "isTerminal IncSucceeded = True"
| "isTerminal IncFailed = True"
| "isTerminal IncSkipped = True"
| "isTerminal _ = False"

definition terminals :: "event list \<Rightarrow> nat" where
  "terminals tr = length (filter isTerminal tr)"

definition settled :: "TaskStats \<Rightarrow> int" where
  "settled s = succeeded s + failed s + skipped s"

fun active :: "('t, 'r) worker \<Rightarrow> nat list" where
  "active Finished = []"
| "active (Running tr res) = [index res]"

fun owed :: "('t, 'r) worker \<Rightarrow> nat" where
  "owed Finished = 0"
| "owed (Running tr res) = terminals tr"

definition outcome ::
  "Config \<Rightarrow> ('t \<Rightarrow> nat \<Rightarrow> nat \<Rightarrow> 'r attempt) \<Rightarrow> 't list \<Rightarrow> nat \<Rightarrow> ('t, 'r) TaskResult" where
  "outcome cfg executor tasks i = fst (processTask cfg (executor (tasks ! i) i) (tasks ! i) i)"

fun genuine ::
  "Config \<Rightarrow> ('t \<Rightarrow> nat \<Rightarrow> nat \<Rightarrow> 'r attempt) \<Rightarrow> 't list \<Rightarrow> ('t, 'r) worker \<Rightarrow> bool" where
  "genuine cfg executor tasks Finished = True"
| "genuine cfg executor tasks (Running tr res) = (res = outcome cfg executor tasks (index res))"

definition poolInv ::
  "Config \<Rightarrow> ('t \<Rightarrow> nat \<Rightarrow> nat \<Rightarrow> 'r attempt) \<Rightarrow> 't list \<Rightarrow> ('t, 'r) Run \<Rightarrow> bool" where
  "poolInv cfg executor tasks run \<longleftrightarrow>
     queueIndex run \<le> length tasks \<and>
     mset (map index (results run)) + mset (concat (map active (workers run))) =
       mset [0 ..< queueIndex run] \<and>
     settled (stats run) + int (sum_list (map owed (workers run))) = int (queueIndex run) \<and>
     (Finished \<in> set (workers run) \<longrightarrow> length tasks \<le> queueIndex run) \<and>
     (\<forall>r \<in> set (results run). r = outcome cfg executor tasks (index r)) \<and>
     (\<forall>w \<in> set (workers run). genuine cfg executor tasks w)"

lemma settled_applyEvent:
  "settled (applyEvent e s) = settled s + (if isTerminal e then 1 else 0)"
  by (cases e) (auto simp: settled_def)

lemma settled_applyEvents:
  "settled (applyEvents tr s) = settled s + int (terminals tr)"
  by (induction tr arbitrary: s) (auto simp: terminals_def settled_applyEvent)

lemma attemptLoop_terminals: "terminals (snd (attemptLoop cfg executor t i att le)) = 1"
proof -
  let ?s = "\<lparr>total = 0, completed = 0, succeeded = 0, failed = 0, skipped = 0, retrying = 0,
             inProgress = 0\<rparr>"
  let ?tr = "snd (attemptLoop cfg executor t i att le)"
  have "settled (applyEvents ?tr ?s) = settled ?s + 1"
    using attemptLoop_counters [of cfg executor t i att le ?s]
    by (cases "status (fst (attemptLoop cfg executor t i att le))") (simp_all add: settled_def)
  then show ?thesis
    by (simp add: settled_applyEvents)
qed

lemma attemptLoop_index: "index (fst (attemptLoop cfg executor t i att le)) = i"
proof (induction "nat (maxRetries cfg) - att" arbitrary: att le rule: less_induct)
  case less
  show ?case
  proof (cases "int att < maxRetries cfg")
    case False
    then show ?thesis
      by (simp add: attemptLoop_exhausted)
  next
    case True
    have dec: "nat (maxRetries cfg) - Suc att < nat (maxRetries cfg) - att"
      using True by linarith
    show ?thesis
    proof (cases rule: withTimeout_cases
        [where executor = executor and k = "Suc att" and msg = "timeoutMessage i (timeoutMs cfg)"])
      case (1 r)
      with True show ?thesis by (simp add: attemptLoop_success)
    next
      case (2 e)
      from less [OF dec, of "Some e"] show ?thesis
        by (simp add: attemptLoop_failure [where executor = executor and att = att, OF True 2])
    qed
  qed
qed

lemma outcome_index [simp]: "index (outcome cfg executor tasks i) = i"
  by (simp add: outcome_def processTask_def attemptLoop_index)

lemma runSegment_settled:
  "settled (snd (runSegment tr s)) + int (terminals (fst (runSegment tr s))) =
   settled s + int (terminals tr)"
proof (induction tr arbitrary: s)
  case Nil
  then show ?case by simp
next
  case (Cons e tr)
  show ?case
  proof (cases "isAwait e")
    case True
    then show ?thesis by (cases e) (simp_all add: terminals_def)
  next
    case False
    then show ?thesis
      using Cons [of "applyEvent e s"]
      by (simp add: settled_applyEvent terminals_def)
  qed
qed

lemma workerLoop_done:
  "\<not> queueIndex run < length tasks \<Longrightarrow> workerLoop cfg executor tasks run = (Finished, run)"
  by (simp add: workerLoop_def)

lemma workerLoop_claims:
  assumes "queueIndex run < length tasks"
  shows "\<exists>rest. fst (workerLoop cfg executor tasks run) =
           Running rest (outcome cfg executor tasks (queueIndex run)) \<and>
         settled (stats (snd (workerLoop cfg executor tasks run))) + int (terminals rest) =
           settled (stats run) + 1"
    and "queueIndex (snd (workerLoop cfg executor tasks run)) = Suc (queueIndex run)"
    and "results (snd (workerLoop cfg executor tasks run)) = results run"
proof -
  let ?i = "queueIndex run"
  let ?pt = "processTask cfg (executor (tasks ! ?i) ?i) (tasks ! ?i) ?i"
  let ?s1 = "(stats run)\<lparr>inProgress := inProgress (stats run) + 1\<rparr>"
  have wl: "workerLoop cfg executor tasks run =
              (Running (fst (runSegment (snd ?pt) ?s1)) (fst ?pt),
               run\<lparr>queueIndex := Suc ?i, stats := snd (runSegment (snd ?pt) ?s1)\<rparr>)"
    using assms by (simp add: workerLoop_def Let_def case_prod_beta)
  have "terminals (snd ?pt) = 1"
    by (simp add: processTask_def attemptLoop_terminals)
  with runSegment_settled [of "snd ?pt" ?s1]
  have "settled (snd (runSegment (snd ?pt) ?s1)) + int (terminals (fst (runSegment (snd ?pt) ?s1))) =
        settled (stats run) + 1"
    by (simp add: settled_def)
  then show "\<exists>rest. fst (workerLoop cfg executor tasks run) =
           Running rest (outcome cfg executor tasks (queueIndex run)) \<and>
         settled (stats (snd (workerLoop cfg executor tasks run))) + int (terminals rest) =
           settled (stats run) + 1"
    by (simp add: wl outcome_def)
  show "queueIndex (snd (workerLoop cfg executor tasks run)) = Suc (queueIndex run)"
    and "results (snd (workerLoop cfg executor tasks run)) = results run"
    by (simp_all add: wl)
qed

lemma active_update:
  "w < length ws \<Longrightarrow>
   mset (concat (map active (ws[w := x]))) + mset (active (ws ! w)) =
   mset (concat (map active ws)) + mset (active x)"
proof (induction ws arbitrary: w)
  case Nil
  then show ?case by simp
next
  case (Cons a ws)
  then show ?case by (cases w) auto
qed

lemma owed_update:
  "w < length ws \<Longrightarrow>
   sum_list (map owed (ws[w := x])) + owed (ws ! w) = sum_list (map owed ws) + owed x"
proof (induction ws arbitrary: w)
  case Nil
  then show ?case by simp
next
  case (Cons a ws)
  then show ?case by (cases w) auto
qed

lemma resume_step:
  assumes "w < length (workers run)" and "workers run ! w = Running tr res" and "tr \<noteq> []"
  shows "queueIndex (resume cfg executor tasks w run) = queueIndex run"
    and "results (resume cfg executor tasks w run) = results run"
    and "workers (resume cfg executor tasks w run) =
           (workers run)[w := Running (fst (runSegment tr (stats run))) res]"
    and "stats (resume cfg executor tasks w run) = snd (runSegment tr (stats run))"
  using assms by (simp_all add: resume_def Let_def case_prod_beta)

lemma resume_finish:
  assumes "w < length (workers run)" and "workers run ! w = Running [] res"
    and "\<not> queueIndex run < length tasks"
  shows "queueIndex (resume cfg executor tasks w run) = queueIndex run"
    and "results (resume cfg executor tasks w run) = results run @ [res]"
    and "workers (resume cfg executor tasks w run) = (workers run)[w := Finished]"
    and "settled (stats (resume cfg executor tasks w run)) = settled (stats run)"
  using assms by (simp_all add: resume_def Let_def workerLoop_done settled_def)

lemma resume_claim:
  assumes "w < length (workers run)" and "workers run ! w = Running [] res"
    and "queueIndex run < length tasks"
  shows "queueIndex (resume cfg executor tasks w run) = Suc (queueIndex run)"
    and "results (resume cfg executor tasks w run) = results run @ [res]"
    and "\<exists>rest. workers (resume cfg executor tasks w run) =
           (workers run)[w := Running rest (outcome cfg executor tasks (queueIndex run))] \<and>
         settled (stats (resume cfg executor tasks w run)) + int (terminals rest) =
           settled (stats run) + 1"
proof -
  let ?run1 = "run\<lparr>results := results run @ [res],
                 stats := (stats run)\<lparr>inProgress := inProgress (stats run) - 1,
                                      completed := completed (stats run) + 1\<rparr>\<rparr>"
  let ?wl = "workerLoop cfg executor tasks ?run1"
  have res: "resume cfg executor tasks w run = (snd ?wl)\<lparr>workers := (workers run)[w := fst ?wl]\<rparr>"
    using assms(1,2) by (simp add: resume_def Let_def case_prod_beta)
  have q: "queueIndex ?run1 < length tasks"
    using assms(3) by simp
  note c = workerLoop_claims [OF q, of cfg executor]
  show "queueIndex (resume cfg executor tasks w run) = Suc (queueIndex run)"
    and "results (resume cfg executor tasks w run) = results run @ [res]"
    using c(2,3) by (simp_all add: res)
  from c(1) obtain rest where
    "fst ?wl = Running rest (outcome cfg executor tasks (queueIndex run))"
    "settled (stats (snd ?wl)) + int (terminals rest) = settled (stats ?run1) + 1"
    by auto
  then show "\<exists>rest. workers (resume cfg executor tasks w run) =
           (workers run)[w := Running rest (outcome cfg executor tasks (queueIndex run))] \<and>
         settled (stats (resume cfg executor tasks w run)) + int (terminals rest) =
           settled (stats run) + 1"
    by (auto simp: res settled_def)
qed

lemma resume_idle:
  "\<not> (w < length (workers run) \<and> workers run ! w \<noteq> Finished) \<Longrightarrow>
   resume cfg executor tasks w run = run"
  by (auto simp: resume_def)

lemma poolInv_resume:
  assumes inv: "poolInv cfg executor tasks run"
  shows "poolInv cfg executor tasks (resume cfg executor tasks w run)"
proof (cases "w < length (workers run) \<and> workers run ! w \<noteq> Finished")
  case False
  then show ?thesis using inv by (simp add: resume_idle)
next
  case True
  then have w: "w < length (workers run)" by simp
  from True obtain tr res where r: "workers run ! w = Running tr res"
    by (cases "workers run ! w") auto
  let ?run' = "resume cfg executor tasks w run"
  from inv have q: "queueIndex run \<le> length tasks"
    and m: "mset (map index (results run)) + mset (concat (map active (workers run))) =
              mset [0 ..< queueIndex run]"
    and s: "settled (stats run) + int (sum_list (map owed (workers run))) = int (queueIndex run)"
    and f: "Finished \<in> set (workers run) \<longrightarrow> length tasks \<le> queueIndex run"
    and gr: "\<forall>r \<in> set (results run). r = outcome cfg executor tasks (index r)"
    and gw: "\<forall>w \<in> set (workers run). genuine cfg executor tasks w"
    by (simp_all add: poolInv_def)
  have mem: "Running tr res \<in> set (workers run)"
    using w r by (metis nth_mem)
  then have gen: "res = outcome cfg executor tasks (index res)"
    using gw by fastforce
  show ?thesis
  proof (cases "tr = []")
    case False
    note st = resume_step [OF w r False, of cfg executor tasks]
    let ?x = "Running (fst (runSegment tr (stats run))) res"
    have a: "mset (concat (map active (workers ?run'))) = mset (concat (map active (workers run)))"
      using active_update [OF w, of ?x] r by (simp add: st)
    have "sum_list (map owed (workers ?run')) + terminals tr =
          sum_list (map owed (workers run)) + terminals (fst (runSegment tr (stats run)))"
      using owed_update [OF w, of ?x] r by (simp add: st)
    with runSegment_settled [of tr "stats run"] s
    have s': "settled (stats ?run') + int (sum_list (map owed (workers ?run'))) = int (queueIndex ?run')"
      by (simp add: st)
    have sub: "set (workers ?run') \<subseteq> insert ?x (set (workers run))"
      by (simp add: st set_update_subset_insert)
    have f': "Finished \<in> set (workers ?run') \<longrightarrow> length tasks \<le> queueIndex ?run'"
      using sub f by (auto simp: st)
    have gw': "\<forall>w \<in> set (workers ?run'). genuine cfg executor tasks w"
      using sub gw gen by auto
    show ?thesis
      unfolding poolInv_def using q m a s' f' gr gw' by (simp add: st)
  next
    case True
    note r0 = r [unfolded True]
    show ?thesis
    proof (cases "queueIndex run < length tasks")
      case False
      note st = resume_finish [OF w r0 False, of cfg executor]
      have a: "mset (concat (map active (workers ?run'))) + {#index res#} =
               mset (concat (map active (workers run)))"
        using active_update [OF w, of Finished] r0 by (simp add: st)
      have m': "mset (map index (results ?run')) + mset (concat (map active (workers ?run'))) =
              mset [0 ..< queueIndex ?run']"
        using m a [symmetric] by (simp add: st)
      have "sum_list (map owed (workers ?run')) = sum_list (map owed (workers run))"
        using owed_update [OF w, of Finished] r0 by (simp add: st terminals_def)
      with s have s': "settled (stats ?run') + int (sum_list (map owed (workers ?run'))) =
          int (queueIndex ?run')"
        by (simp add: st)
      have f': "Finished \<in> set (workers ?run') \<longrightarrow> length tasks \<le> queueIndex ?run'"
        using False by (simp add: st)
      have sub: "set (workers ?run') \<subseteq> insert Finished (set (workers run))"
        by (simp add: st set_update_subset_insert)
      have gw': "\<forall>w \<in> set (workers ?run'). genuine cfg executor tasks w"
        using sub gw by auto
      have gr': "\<forall>r \<in> set (results ?run'). r = outcome cfg executor tasks (index r)"
        using gr gen by (auto simp: st)
      show ?thesis
        unfolding poolInv_def using q m' s' f' gr' gw' by (simp add: st)
    next
      case True
      note st = resume_claim [OF w r0 True, of cfg executor]
      from st(3) obtain rest where
        ws: "workers ?run' =
               (workers run)[w := Running rest (outcome cfg executor tasks (queueIndex run))]"
        and ss: "settled (stats ?run') + int (terminals rest) = settled (stats run) + 1"
        by auto
      let ?x = "Running rest (outcome cfg executor tasks (queueIndex run))"
      have a: "mset (concat (map active (workers ?run'))) + {#index res#} =
               mset (concat (map active (workers run))) + {#queueIndex run#}"
        using active_update [OF w, of ?x] r0 by (simp add: ws)
      have "mset (map index (results ?run')) + mset (concat (map active (workers ?run'))) =
            mset (map index (results run)) +
              (mset (concat (map active (workers ?run'))) + {#index res#})"
        by (simp add: st)
      also have "\<dots> = mset (map index (results run)) +
              (mset (concat (map active (workers run))) + {#queueIndex run#})"
        by (simp only: a)
      also have "\<dots> = (mset (map index (results run)) +
              mset (concat (map active (workers run)))) + {#queueIndex run#}"
        by (simp only: add.assoc)
      also have "\<dots> = mset [0 ..< queueIndex run] + {#queueIndex run#}"
        by (simp only: m)
      finally have m': "mset (map index (results ?run')) + mset (concat (map active (workers ?run'))) =
              mset [0 ..< queueIndex ?run']"
        by (simp add: st)
      have "sum_list (map owed (workers ?run')) = sum_list (map owed (workers run)) + terminals rest"
        using owed_update [OF w, of ?x] r0 by (simp add: ws terminals_def)
      with s ss have s': "settled (stats ?run') + int (sum_list (map owed (workers ?run'))) =
          int (queueIndex ?run')"
        by (simp add: st)
      have nf: "Finished \<notin> set (workers run)"
        using f True by auto
      have sub: "set (workers ?run') \<subseteq> insert ?x (set (workers run))"
        by (simp add: ws set_update_subset_insert)
      have f': "Finished \<in> set (workers ?run') \<longrightarrow> length tasks \<le> queueIndex ?run'"
        using sub nf by auto
      have gw': "\<forall>w \<in> set (workers ?run'). genuine cfg executor tasks w"
        using sub gw by auto
      have gr': "\<forall>r \<in> set (results ?run'). r = outcome cfg executor tasks (index r)"
        using gr gen by (auto simp: st)
      have q': "queueIndex ?run' \<le> length tasks"
        using True by (simp add: st)
      show ?thesis
        unfolding poolInv_def using q' m' s' f' gr' gw' by simp
    qed
  qed
qed

declare runWorkers.simps [simp del]

lemma poolInv_initial: "poolInv cfg executor tasks (initialRun tasks)"
  by (simp add: poolInv_def initialRun_def settled_def)

lemma poolInv_launch:
  assumes inv: "poolInv cfg executor tasks run"
  shows "poolInv cfg executor tasks
           ((snd (workerLoop cfg executor tasks run))
              \<lparr>workers := workers (snd (workerLoop cfg executor tasks run))
                           @ [fst (workerLoop cfg executor tasks run)]\<rparr>)"
proof -
  from inv have q: "queueIndex run \<le> length tasks"
    and m: "mset (map index (results run)) + mset (concat (map active (workers run))) =
              mset [0 ..< queueIndex run]"
    and s: "settled (stats run) + int (sum_list (map owed (workers run))) = int (queueIndex run)"
    and f: "Finished \<in> set (workers run) \<longrightarrow> length tasks \<le> queueIndex run"
    and gr: "\<forall>r \<in> set (results run). r = outcome cfg executor tasks (index r)"
    and gw: "\<forall>w \<in> set (workers run). genuine cfg executor tasks w"
    by (simp_all add: poolInv_def)
  show ?thesis
  proof (cases "queueIndex run < length tasks")
    case False
    then show ?thesis
      using q m s f gr gw by (simp add: workerLoop_done poolInv_def)
  next
    case True
    note c = workerLoop_claims [OF True, of cfg executor]
    from c(1) obtain rest where
      wk: "fst (workerLoop cfg executor tasks run) =
             Running rest (outcome cfg executor tasks (queueIndex run))"
      and ss: "settled (stats (snd (workerLoop cfg executor tasks run))) + int (terminals rest) =
             settled (stats run) + 1"
      by auto
    have nf: "Finished \<notin> set (workers run)"
      using f True by auto
    show ?thesis
      unfolding poolInv_def using True m s ss nf gr gw
      by (simp add: c(2,3) wk)
  qed
qed

lemma poolInv_startWorkers:
  "poolInv cfg executor tasks run \<Longrightarrow> poolInv cfg executor tasks (startWorkers cfg executor tasks n run)"
proof (induction n arbitrary: run)
  case 0
  then show ?case by simp
next
  case (Suc n)
  from Suc.IH [OF poolInv_launch [OF Suc.prems]] show ?case
    by (simp add: case_prod_beta)
qed

lemma startWorkers_length:
  "length (workers (startWorkers cfg executor tasks n run)) = length (workers run) + n"
  by (induction n arbitrary: run) (simp_all add: case_prod_beta)

lemma resume_length [simp]:
  "length (workers (resume cfg executor tasks w run)) = length (workers run)"
  by (simp add: resume_def Let_def case_prod_beta split: worker.splits)

lemma runWorkers_inv:
  "poolInv cfg executor tasks run \<Longrightarrow>
   poolInv cfg executor tasks (runWorkers cfg executor tasks sched n run) \<and>
   pendingWorkers (runWorkers cfg executor tasks sched n run) = [] \<and>
   length (workers (runWorkers cfg executor tasks sched n run)) = length (workers run)"
proof (induction cfg executor tasks sched n run rule: runWorkers.induct)
  case (1 cfg executor tasks sched n run)
  show ?case
  proof (cases "pendingWorkers run = []")
    case True
    then show ?thesis
      using "1.prems" by (simp add: runWorkers.simps)
  next
    case False
    let ?w = "pendingWorkers run ! (sched n mod length (pendingWorkers run))"
    from "1.IH" [OF False poolInv_resume [OF "1.prems"]] False
    show ?thesis
      by (simp add: runWorkers.simps [of cfg executor tasks sched n run])
  qed
qed

lemma all_finished:
  assumes "pendingWorkers run = []"
  shows "set (workers run) \<subseteq> {Finished}"
proof
  fix x assume "x \<in> set (workers run)"
  then obtain i where i: "i < length (workers run)" and x: "workers run ! i = x"
    by (auto simp: in_set_conv_nth)
  have "i \<notin> set (pendingWorkers run)"
    using assms by simp
  with i x show "x \<in> {Finished}"
    by (simp add: pendingWorkers_mem)
qed

lemma finished_nothing:
  "set ws \<subseteq> {Finished} \<Longrightarrow> concat (map active ws) = [] \<and> sum_list (map owed ws) = 0"
  by (induction ws) auto

lemma finished_pool:
  assumes inv: "poolInv cfg executor tasks run" and idle: "pendingWorkers run = []"
    and some: "workers run \<noteq> [] \<or> tasks = []"
  shows "queueIndex run = length tasks"
    and "mset (map index (results run)) = mset [0 ..< length tasks]"
    and "settled (stats run) = int (length tasks)"
    and "\<forall>r \<in> set (results run). r = outcome cfg executor tasks (index r)"
proof -
  from inv have q: "queueIndex run \<le> length tasks"
    and m: "mset (map index (results run)) + mset (concat (map active (workers run))) =
              mset [0 ..< queueIndex run]"
    and s: "settled (stats run) + int (sum_list (map owed (workers run))) = int (queueIndex run)"
    and f: "Finished \<in> set (workers run) \<longrightarrow> length tasks \<le> queueIndex run"
    and gr: "\<forall>r \<in> set (results run). r = outcome cfg executor tasks (index r)"
    by (simp_all add: poolInv_def)
  note fin = all_finished [OF idle]
  note none = finished_nothing [OF fin]
  show qq: "queueIndex run = length tasks"
  proof (cases "tasks = []")
    case True
    with q show ?thesis by simp
  next
    case False
    with some obtain x where "x \<in> set (workers run)"
      by (cases "workers run") auto
    with fin have "Finished \<in> set (workers run)" by auto
    with f q show ?thesis by simp
  qed
  show "mset (map index (results run)) = mset [0 ..< length tasks]"
    using m none qq by simp
  show "settled (stats run) = int (length tasks)"
    using s none qq by simp
  show "\<forall>r \<in> set (results run). r = outcome cfg executor tasks (index r)"
    by (rule gr)
qed

lemma sorted_indices:
  assumes "mset (map index rs) = mset [0 ..< n]"
  shows "map index (sort_key index rs) = [0 ..< n]"
proof -
  have "mset (map index (sort_key index rs)) = mset [0 ..< n]"
    using assms by simp
  moreover have "sorted (map index (sort_key index rs))"
    by (rule sorted_sort_key)
  ultimately have "sort [0 ..< n] = map index (sort_key index rs)"
    by (rule properties_for_sort)
  then show ?thesis
    by (simp add: sorted_sort_id)
qed

lemma finalRun_finished:
  assumes "1 \<le> concurrency cfg \<or> tasks = []"
  shows "mset (map index (results (finalRun cfg executor tasks sched))) = mset [0 ..< length tasks]"
    and "settled (stats (finalRun cfg executor tasks sched)) = int (length tasks)"
    and "\<forall>r \<in> set (results (finalRun cfg executor tasks sched)).
           r = outcome cfg executor tasks (index r)"
proof -
  let ?n = "nat (min (concurrency cfg) (int (length tasks)))"
  let ?run1 = "startWorkers cfg executor tasks ?n (initialRun tasks)"
  let ?run2 = "runWorkers cfg executor tasks sched 0 ?run1"
  have fr: "finalRun cfg executor tasks sched = ?run2"
    by (simp add: finalRun_def)
  have inv1: "poolInv cfg executor tasks ?run1"
    by (rule poolInv_startWorkers [OF poolInv_initial])
  note rw = runWorkers_inv [OF inv1, of sched 0]
  have len: "length (workers ?run2) = ?n"
    using rw startWorkers_length [of cfg executor tasks ?n "initialRun tasks"]
    by (simp add: initialRun_def)
  have some: "workers ?run2 \<noteq> [] \<or> tasks = []"
  proof (cases "tasks = []")
    case True
    then show ?thesis by simp
  next
    case False
    with assms have "0 < ?n"
      by (cases tasks) auto
    with len have "0 < length (workers ?run2)"
      by (simp only:)
    then show ?thesis
      by fastforce
  qed
  from rw have inv2: "poolInv cfg executor tasks ?run2" and idle: "pendingWorkers ?run2 = []"
    by simp_all
  note fp = finished_pool [OF inv2 idle some]
  show "mset (map index (results (finalRun cfg executor tasks sched))) = mset [0 ..< length tasks]"
    and "settled (stats (finalRun cfg executor tasks sched)) = int (length tasks)"
    and "\<forall>r \<in> set (results (finalRun cfg executor tasks sched)).
           r = outcome cfg executor tasks (index r)"
    using fp(2,3,4) by (simp_all only: fr)
qed

lemma runConcurrentTasks_outcomes:
  assumes "1 \<le> concurrency cfg \<or> tasks = []"
  shows "runConcurrentTasks cfg executor tasks sched =
         map (outcome cfg executor tasks) [0 ..< length tasks]"
proof -
  let ?rs = "results (finalRun cfg executor tasks sched)"
  note fr = finalRun_finished [OF assms, of executor sched]
  have idx: "map index (sort_key index ?rs) = [0 ..< length tasks]"
    using fr(1) by (rule sorted_indices)
  have h: "\<forall>r \<in> set (sort_key index ?rs). r = outcome cfg executor tasks (index r)"
    using fr(3) by simp
  have "map (\<lambda>r. outcome cfg executor tasks (index r)) (sort_key index ?rs) = sort_key index ?rs"
  proof (rule map_idI)
    fix x assume "x \<in> set (sort_key index ?rs)"
    with h have "x = outcome cfg executor tasks (index x)"
      by blast
    then show "outcome cfg executor tasks (index x) = x"
      by (rule sym)
  qed
  then have "sort_key index ?rs = map (\<lambda>r. outcome cfg executor tasks (index r)) (sort_key index ?rs)"
    by (rule sym)
  also have "\<dots> = map (outcome cfg executor tasks) (map index (sort_key index ?rs))"
    by simp
  finally show ?thesis
    by (simp add: runConcurrentTasks_def idx)
qed

lemma poolInv_distinct:
  assumes "poolInv cfg executor tasks run"
  shows "distinct (map index (results run) @ concat (map active (workers run)))"
proof -
  have "mset (map index (results run) @ concat (map active (workers run))) =
        mset [0 ..< queueIndex run]"
    using assms by (simp add: poolInv_def)
  then show ?thesis
    by (metis distinct_upt mset_eq_imp_distinct_iff)
qed

subsection \<open>Claims about runConcurrentTasks\<close>

text \<open>
  C3.  The claim: for every list of \<open>N\<close> tasks and every worker count the run returns
  \<open>N\<close> outcomes with the indices \<open>0..N-1\<close> in order, and
  \<open>succeeded + failed + skipped = N\<close> at the end.  With \<^verbatim>\<open>concurrency = 0\<close> the loop that
  starts the workers does not run, \<^verbatim>\<open>Promise.all([])\<close> resolves, and three tasks give the
  empty list and counters that are all 0.
\<close>

theorem runConcurrentTasks_no_workers_counterexample:
  "runConcurrentTasks (defaultConfig\<lparr>concurrency := 0\<rparr>) (\<lambda>t i k. Resolves t)
     [10, 20, 30 :: nat] (\<lambda>n. 0) = [] \<and>
   succeeded (stats (finalRun (defaultConfig\<lparr>concurrency := 0\<rparr>) (\<lambda>t i k. Resolves t)
     [10, 20, 30 :: nat] (\<lambda>n. 0))) = 0"
  by (simp add: runConcurrentTasks_def finalRun_def defaultConfig_def initialRun_def
      runWorkers.simps pendingWorkers_def)

text \<open>
  C3, amended: for a worker count of at least 1.  Whatever the order in which the workers
  take their turns (\<open>sched\<close>) and whatever the execution function does (\<open>executor\<close>), the
  run ends, it returns one outcome per task, the indices of the outcomes are \<open>0..N-1\<close> in
  this order, the outcome at position \<open>i\<close> is the one \<^verbatim>\<open>processTask\<close> computes for task \<open>i\<close>,
  and at the end \<open>succeeded + failed + skipped = N\<close>.
\<close>

theorem runConcurrentTasks_outcomes_in_order:
  assumes "1 \<le> concurrency cfg"
  shows "length (runConcurrentTasks cfg executor tasks sched) = length tasks \<and>
         map index (runConcurrentTasks cfg executor tasks sched) = [0 ..< length tasks] \<and>
         runConcurrentTasks cfg executor tasks sched =
           map (\<lambda>i. fst (processTask cfg (executor (tasks ! i) i) (tasks ! i) i))
             [0 ..< length tasks] \<and>
         succeeded (stats (finalRun cfg executor tasks sched))
           + failed (stats (finalRun cfg executor tasks sched))
           + skipped (stats (finalRun cfg executor tasks sched)) = int (length tasks)"
proof -
  have w: "1 \<le> concurrency cfg \<or> tasks = []"
    using assms by simp
  have out: "runConcurrentTasks cfg executor tasks sched =
               map (outcome cfg executor tasks) [0 ..< length tasks]"
    using w by (rule runConcurrentTasks_outcomes)
  have idx: "map index (runConcurrentTasks cfg executor tasks sched) = [0 ..< length tasks]"
    by (simp add: out comp_def)
  have "settled (stats (finalRun cfg executor tasks sched)) = int (length tasks)"
    using w by (rule finalRun_finished(2))
  then show ?thesis
    using idx by (simp add: out outcome_def settled_def)
qed

theorem runConcurrentTasks_outcomes_in_order_witness:
  "map index (runConcurrentTasks (defaultConfig\<lparr>concurrency := 2\<rparr>)
     (\<lambda>t i k. if t = 20 then Rejects ''invalid input'' else Resolves t)
     [10, 20, 30 :: nat] (\<lambda>n. n)) = [0, 1, 2] \<and>
   map status (runConcurrentTasks (defaultConfig\<lparr>concurrency := 2\<rparr>)
     (\<lambda>t i k. if t = 20 then Rejects ''invalid input'' else Resolves t)
     [10, 20, 30 :: nat] (\<lambda>n. n)) = [Success, Failed, Success] \<and>
   succeeded (stats (finalRun (defaultConfig\<lparr>concurrency := 2\<rparr>)
     (\<lambda>t i k. if t = 20 then Rejects ''invalid input'' else Resolves t)
     [10, 20, 30 :: nat] (\<lambda>n. n)))
   + failed (stats (finalRun (defaultConfig\<lparr>concurrency := 2\<rparr>)
     (\<lambda>t i k. if t = 20 then Rejects ''invalid input'' else Resolves t)
     [10, 20, 30 :: nat] (\<lambda>n. n)))
   + skipped (stats (finalRun (defaultConfig\<lparr>concurrency := 2\<rparr>)
     (\<lambda>t i k. if t = 20 then Rejects ''invalid input'' else Resolves t)
     [10, 20, 30 :: nat] (\<lambda>n. n))) = 3"
proof -
  have "[0 ..< 3] = [0, 1, 2::nat]"
    by (simp add: upt_conv_Cons)
  then show ?thesis
    using runConcurrentTasks_outcomes_in_order
      [of "defaultConfig\<lparr>concurrency := 2\<rparr>"
          "\<lambda>t i k. if t = 20 then Rejects ''invalid input'' else Resolves t"
          "[10, 20, 30 :: nat]" "\<lambda>n. n"]
    by (simp add: defaultConfig_def processTask_def attemptLoop.simps withTimeout_def
        isRetryableError_def toLowerCase_def lowerChar_def)
qed

section \<open>Admission controller (src/utils/rateLimiter.ts)\<close>

subsection \<open>State\<close>

text \<open>
  Clock readings (\<^verbatim>\<open>Date.now()\<close>) are integers, in milliseconds.  Token amounts, costs and
  waiting times are rational numbers: the arithmetic of the source is carried out exactly.
\<close>

record RateLimitState =
  tokens :: rat
  lastRefill :: int
  requestsInWindow :: "int list"
  activeRequests :: int

text \<open>
  An entry of a wait queue is \<^verbatim>\<open>{resolve, cost}\<close>.  The \<^verbatim>\<open>resolve\<close> function of a parked
  caller is represented by a number naming that caller.
\<close>

record RateLimiter =
  states :: "string \<rightharpoonup> RateLimitState"
  waitQueue :: "string \<rightharpoonup> (nat \<times> rat) list"

definition newLimiter :: RateLimiter where
  "newLimiter = \<lparr>states = Map.empty, waitQueue = Map.empty\<rparr>"

datatype limitType = Concurrency | Rpm | Tpm

record AIModelConfig =
  modelId :: string
  rateLimit :: "(limitType \<times> int) option"

text \<open>
  How a call stands when it reaches its first suspension point (or returns without one):
  admitted, parked in the wait queue, or asleep on a timer for the given milliseconds.
\<close>

datatype admission = Admitted | Queued | Sleeping rat

text \<open>
  \<^verbatim>\<open>getState\<close> creates the state of a resource on first use; \<open>now\<close> is what
  \<^verbatim>\<open>Date.now()\<close> returns there, and is not read when the state exists.  The model returns
  the state and the limiter that holds it; \<open>putState\<close> writes back what the source
  mutates in place.
\<close>

definition freshState :: "int \<Rightarrow> RateLimitState" where
  "freshState now = \<lparr>tokens = 0, lastRefill = now, requestsInWindow = [], activeRequests = 0\<rparr>"

definition getState :: "int \<Rightarrow> string \<Rightarrow> RateLimiter \<Rightarrow> RateLimitState \<times> RateLimiter" where
  "getState now mid rl =
     (case states rl mid of
        Some st \<Rightarrow> (st, rl)
      | None \<Rightarrow> (freshState now, rl\<lparr>states := (states rl)(mid \<mapsto> freshState now)\<rparr>))"

definition putState :: "string \<Rightarrow> RateLimitState \<Rightarrow> RateLimiter \<Rightarrow> RateLimiter" where
  "putState mid st rl = rl\<lparr>states := (states rl)(mid \<mapsto> st)\<rparr>"

definition queueOf :: "RateLimiter \<Rightarrow> string \<Rightarrow> (nat \<times> rat) list" where
  "queueOf rl mid = (case waitQueue rl mid of None \<Rightarrow> [] | Some q \<Rightarrow> q)"

subsection \<open>Concurrency\<close>

definition waitForConcurrency ::
  "int \<Rightarrow> string \<Rightarrow> int \<Rightarrow> nat \<Rightarrow> RateLimiter \<Rightarrow> admission \<times> RateLimiter" where
  "waitForConcurrency now mid limit caller rl =
     (let (st, rl1) = getState now mid rl in
        if activeRequests st < limit
        then (Admitted, putState mid (st\<lparr>activeRequests := activeRequests st + 1\<rparr>) rl1)
        else (Queued, rl1\<lparr>waitQueue := (waitQueue rl1)(mid \<mapsto> queueOf rl1 mid @ [(caller, 0)])\<rparr>))"

text \<open>The \<^verbatim>\<open>.then\<close> callback of a parked caller, run after its \<^verbatim>\<open>resolve\<close> was called.\<close>

definition resumeQueued :: "string \<Rightarrow> RateLimiter \<Rightarrow> RateLimiter" where
  "resumeQueued mid rl =
     (case states rl mid of
        None \<Rightarrow> rl
      | Some st \<Rightarrow> putState mid (st\<lparr>activeRequests := activeRequests st + 1\<rparr>) rl)"

text \<open>\<^verbatim>\<open>processQueue\<close> returns the caller whose \<^verbatim>\<open>resolve\<close> it called, if any.\<close>

definition processQueue :: "int \<Rightarrow> string \<Rightarrow> RateLimiter \<Rightarrow> nat option \<times> RateLimiter" where
  "processQueue now mid rl =
     (case waitQueue rl mid of
        None \<Rightarrow> (None, rl)
      | Some [] \<Rightarrow> (None, rl)
      | Some (next # rest) \<Rightarrow>
          (let (st, rl1) = getState now mid rl
           in (Some (fst next), rl1\<lparr>waitQueue := (waitQueue rl1)(mid \<mapsto> rest)\<rparr>)))"

definition release :: "int \<Rightarrow> string \<Rightarrow> RateLimiter \<Rightarrow> nat option \<times> RateLimiter" where
  "release now mid rl =
     (let (st, rl1) = getState now mid rl;
          rl2 = putState mid (st\<lparr>activeRequests := max 0 (activeRequests st - 1)\<rparr>) rl1
      in processQueue now mid rl2)"

subsection \<open>Requests per minute\<close>

text \<open>
  \<open>now\<close> is the reading of \<^verbatim>\<open>const now = Date.now()\<close>.  The last branch of the source, which
  pushes a reading of its own, is reached only when the pruned window is empty (a timestamp
  that was kept is newer than \<open>now - 60000\<close>, so that \<^verbatim>\<open>waitTime > 0\<close>) and the limit is
  not positive; \<^verbatim>\<open>oldest\<close> is \<^verbatim>\<open>undefined\<close> there and the comparison with \<^verbatim>\<open>NaN\<close> is false.
  The model pushes \<open>now\<close> in this branch.
\<close>

definition waitForRPM :: "int \<Rightarrow> string \<Rightarrow> int \<Rightarrow> RateLimiter \<Rightarrow> admission \<times> RateLimiter" where
  "waitForRPM now mid limit rl =
     (let (st, rl1) = getState now mid rl;
          windowSize = 60000;
          window = filter (\<lambda>t. t > now - windowSize) (requestsInWindow st)
      in if int (length window) < limit
         then (Admitted, putState mid (st\<lparr>requestsInWindow := window @ [now]\<rparr>) rl1)
         else (case window of
                 [] \<Rightarrow> (Admitted, putState mid (st\<lparr>requestsInWindow := window @ [now]\<rparr>) rl1)
               | oldest # _ \<Rightarrow>
                   (let waitTime = oldest + windowSize - now
                    in if waitTime > 0
                       then (Sleeping (of_int waitTime),
                             putState mid (st\<lparr>requestsInWindow := window\<rparr>) rl1)
                       else (Admitted,
                             putState mid (st\<lparr>requestsInWindow := window @ [now]\<rparr>) rl1))))"

subsection \<open>Tokens per minute\<close>

definition waitForTPM ::
  "int \<Rightarrow> string \<Rightarrow> int \<Rightarrow> rat \<Rightarrow> RateLimiter \<Rightarrow> admission \<times> RateLimiter" where
  "waitForTPM now mid limit cost rl =
     (let (st, rl1) = getState now mid rl;
          elapsedTime = now - lastRefill st;
          refillAmount = (of_int limit / 60000) * of_int elapsedTime;
          st1 = st\<lparr>tokens := min (of_int limit) (tokens st + refillAmount), lastRefill := now\<rparr>
      in if tokens st1 \<ge> cost
         then (Admitted, putState mid (st1\<lparr>tokens := tokens st1 - cost\<rparr>) rl1)
         else (let needed = cost - tokens st1;
                   refillRate = of_int limit / 60000;
                   waitTime = needed / refillRate
               in (Sleeping waitTime, putState mid st1 rl1)))"

text \<open>
  The rest of \<^verbatim>\<open>waitForTPM\<close>, run when the timer of the sleeping caller has fired.  (The
  state exists by then; so it does for the other continuations below.)
\<close>

definition wakeTPM :: "int \<Rightarrow> string \<Rightarrow> int \<Rightarrow> rat \<Rightarrow> RateLimiter \<Rightarrow> RateLimiter" where
  "wakeTPM now2 mid limit cost rl =
     (case states rl mid of
        None \<Rightarrow> rl
      | Some st \<Rightarrow>
          (let refillRate = of_int limit / 60000;
               elapsed2 = now2 - lastRefill st;
               st1 = st\<lparr>tokens := min (of_int limit) (tokens st + of_int elapsed2 * refillRate),
                        lastRefill := now2\<rparr>
           in putState mid (st1\<lparr>tokens := tokens st1 - cost\<rparr>) rl))"

subsection \<open>acquire\<close>

definition countActive :: "string \<Rightarrow> RateLimiter \<Rightarrow> RateLimiter" where
  "countActive mid rl =
     (case states rl mid of
        None \<Rightarrow> rl
      | Some st \<Rightarrow> putState mid (st\<lparr>activeRequests := activeRequests st + 1\<rparr>) rl)"

text \<open>
  \<^verbatim>\<open>acquire\<close> reads the clock twice on a resource it has not seen: \<open>created\<close> is the
  reading of \<^verbatim>\<open>getState\<close> when it creates the state, \<open>now\<close> the later reading of
  \<^verbatim>\<open>waitForRPM\<close> or \<^verbatim>\<open>waitForTPM\<close> (the state exists when these are called, so their own
  \<^verbatim>\<open>getState\<close> creates nothing).  \<^verbatim>\<open>waitForConcurrency\<close> reads no clock of its own.
\<close>

definition acquire ::
  "int \<Rightarrow> int \<Rightarrow> AIModelConfig \<Rightarrow> rat \<Rightarrow> nat \<Rightarrow> RateLimiter \<Rightarrow> admission \<times> RateLimiter" where
  "acquire created now modelConfig estimatedTokens caller rl =
     (case rateLimit modelConfig of
        None \<Rightarrow> waitForConcurrency created (modelId modelConfig) 5 caller rl
      | Some (type, val) \<Rightarrow>
          (let (st, rl1) = getState created (modelId modelConfig) rl in
             case type of
               Concurrency \<Rightarrow> waitForConcurrency now (modelId modelConfig) val caller rl1
             | Rpm \<Rightarrow>
                 (case waitForRPM now (modelId modelConfig) val rl1 of
                    (Admitted, rl2) \<Rightarrow> (Admitted, countActive (modelId modelConfig) rl2)
                  | (a, rl2) \<Rightarrow> (a, rl2))
             | Tpm \<Rightarrow>
                 (case waitForTPM now (modelId modelConfig) val estimatedTokens rl1 of
                    (Admitted, rl2) \<Rightarrow> (Admitted, countActive (modelId modelConfig) rl2)
                  | (a, rl2) \<Rightarrow> (a, rl2))))"

text \<open>
  The continuation of a caller that sleeps on a timer, run at the clock reading \<open>now\<close>
  at which it wakes up: \<^verbatim>\<open>waitForRPM\<close> evaluates again from its start, \<^verbatim>\<open>waitForTPM\<close> refills
  and debits; \<^verbatim>\<open>acquire\<close> then counts the request as active.
\<close>

definition resumeSleeping ::
  "int \<Rightarrow> AIModelConfig \<Rightarrow> rat \<Rightarrow> RateLimiter \<Rightarrow> admission \<times> RateLimiter" where
  "resumeSleeping now modelConfig estimatedTokens rl =
     (case rateLimit modelConfig of
        Some (Rpm, val) \<Rightarrow>
          (case waitForRPM now (modelId modelConfig) val rl of
             (Admitted, rl2) \<Rightarrow> (Admitted, countActive (modelId modelConfig) rl2)
           | (a, rl2) \<Rightarrow> (a, rl2))
      | Some (Tpm, val) \<Rightarrow>
          (Admitted,
           countActive (modelId modelConfig)
             (wakeTPM now (modelId modelConfig) val estimatedTokens rl))
      | _ \<Rightarrow> (Admitted, rl))"

subsection \<open>Scenarios\<close>

text \<open>
  A sequence of calls on one resource, for the claims about the concurrency strategy
  (where the clock plays no part: a reading is only stored as \<^verbatim>\<open>lastRefill\<close> when the
  state is created).  \<open>Acquire c\<close>: caller \<open>c\<close> calls \<^verbatim>\<open>acquire\<close>.
  \<open>Release who\<close>: \<^verbatim>\<open>release\<close> is called, by the admitted caller \<open>who\<close> when it has
  finished, or (\<open>None\<close>) by code that holds no admission; the callback of the waiter it
  resolves runs next.  The run records, in order, the callers whose \<^verbatim>\<open>acquire\<close> has
  resolved and the admitted callers that have released.
\<close>

datatype call = Acquire nat | Release "nat option"

record Sim =
  limiter :: RateLimiter
  admittedLog :: "nat list"
  releasedLog :: "nat list"

definition simStep :: "int \<Rightarrow> AIModelConfig \<Rightarrow> Sim \<Rightarrow> call \<Rightarrow> Sim" where
  "simStep now modelConfig s c =
     (case c of
        Acquire caller \<Rightarrow>
          (case acquire now now modelConfig 0 caller (limiter s) of
             (Admitted, rl) \<Rightarrow> s\<lparr>limiter := rl, admittedLog := admittedLog s @ [caller]\<rparr>
           | (a, rl) \<Rightarrow> s\<lparr>limiter := rl\<rparr>)
      | Release who \<Rightarrow>
          (let s1 = (case who of None \<Rightarrow> s | Some w \<Rightarrow> s\<lparr>releasedLog := releasedLog s @ [w]\<rparr>)
           in case release now (modelId modelConfig) (limiter s1) of
                (None, rl) \<Rightarrow> s1\<lparr>limiter := rl\<rparr>
              | (Some waiter, rl) \<Rightarrow>
                  s1\<lparr>limiter := resumeQueued (modelId modelConfig) rl,
                     admittedLog := admittedLog s1 @ [waiter]\<rparr>))"

definition simRun :: "int \<Rightarrow> AIModelConfig \<Rightarrow> call list \<Rightarrow> Sim \<Rightarrow> Sim" where
  "simRun now modelConfig calls s = foldl (simStep now modelConfig) s calls"

definition newSim :: Sim where
  "newSim = \<lparr>limiter = newLimiter, admittedLog = [], releasedLog = []\<rparr>"

definition stillActive :: "Sim \<Rightarrow> nat list" where
  "stillActive s = filter (\<lambda>c. c \<notin> set (releasedLog s)) (admittedLog s)"

text \<open>
  A caller of \<^verbatim>\<open>waitForRPM\<close> from its first evaluation on: the clock readings are those of
  the call and of each wake-up; the result is the reading at which it was admitted.
\<close>

fun acquireRPM :: "string \<Rightarrow> int \<Rightarrow> int list \<Rightarrow> RateLimiter \<Rightarrow> int option \<times> RateLimiter" where
  "acquireRPM mid limit [] rl = (None, rl)"
| "acquireRPM mid limit (now # later) rl =
     (case waitForRPM now mid limit rl of
        (Admitted, rl1) \<Rightarrow> (Some now, rl1)
      | (a, rl1) \<Rightarrow> acquireRPM mid limit later rl1)"

text \<open>
  The fields of the state of a resource, read through the limiter; for a resource without
  a state they are the values \<^verbatim>\<open>getState\<close> would create.
\<close>

definition activeOf :: "RateLimiter \<Rightarrow> string \<Rightarrow> int" where
  "activeOf rl mid = (case states rl mid of None \<Rightarrow> 0 | Some st \<Rightarrow> activeRequests st)"

definition windowOf :: "RateLimiter \<Rightarrow> string \<Rightarrow> int list" where
  "windowOf rl mid = (case states rl mid of None \<Rightarrow> [] | Some st \<Rightarrow> requestsInWindow st)"

definition tokensOf :: "RateLimiter \<Rightarrow> string \<Rightarrow> rat" where
  "tokensOf rl mid = (case states rl mid of None \<Rightarrow> 0 | Some st \<Rightarrow> tokens st)"

subsection \<open>Properties of the admission controller\<close>

lemma getState_fresh:
  "states rl mid = None \<Longrightarrow>
   getState now mid rl = (freshState now, rl\<lparr>states := (states rl)(mid \<mapsto> freshState now)\<rparr>)"
  by (simp add: getState_def)

lemma getState_known: "states rl mid = Some st \<Longrightarrow> getState now mid rl = (st, rl)"
  by (simp add: getState_def)

lemma getState_states:
  "states (snd (getState now mid rl)) mid = Some (fst (getState now mid rl))"
  by (simp add: getState_def split: option.splits)

lemma getState_activeOf [simp]:
  "activeRequests (fst (getState now mid rl)) = activeOf rl mid"
  by (simp add: getState_def activeOf_def freshState_def split: option.splits)

lemma getState_queueOf [simp]: "queueOf (snd (getState now mid rl)) mid = queueOf rl mid"
  by (simp add: getState_def queueOf_def split: option.splits)

lemma getState_waitQueue [simp]: "waitQueue (snd (getState now mid rl)) = waitQueue rl"
  by (simp add: getState_def split: option.splits)

lemma waitForConcurrency_admits:
  "activeOf rl mid < limit \<Longrightarrow>
   fst (waitForConcurrency now mid limit caller rl) = Admitted \<and>
   activeOf (snd (waitForConcurrency now mid limit caller rl)) mid = activeOf rl mid + 1 \<and>
   queueOf (snd (waitForConcurrency now mid limit caller rl)) mid = queueOf rl mid"
  by (simp add: waitForConcurrency_def putState_def activeOf_def queueOf_def split: prod.splits)
     (auto simp: getState_def freshState_def split: option.splits)

lemma waitForConcurrency_queues:
  "\<not> activeOf rl mid < limit \<Longrightarrow>
   fst (waitForConcurrency now mid limit caller rl) = Queued \<and>
   activeOf (snd (waitForConcurrency now mid limit caller rl)) mid = activeOf rl mid \<and>
   queueOf (snd (waitForConcurrency now mid limit caller rl)) mid = queueOf rl mid @ [(caller, 0)]"
  by (simp add: waitForConcurrency_def putState_def activeOf_def queueOf_def split: prod.splits)
     (auto simp: getState_def freshState_def split: option.splits)

lemma release_empty:
  "queueOf rl mid = [] \<Longrightarrow>
   fst (release now mid rl) = None \<and>
   activeOf (snd (release now mid rl)) mid = max 0 (activeOf rl mid - 1) \<and>
   queueOf (snd (release now mid rl)) mid = []"
  by (auto simp: release_def processQueue_def putState_def activeOf_def queueOf_def getState_def
      freshState_def split: prod.splits option.splits list.splits)

lemma release_resolves:
  "queueOf rl mid = (c, cost) # rest \<Longrightarrow>
   fst (release now mid rl) = Some c \<and>
   activeOf (snd (release now mid rl)) mid = max 0 (activeOf rl mid - 1) \<and>
   queueOf (snd (release now mid rl)) mid = rest"
  by (auto simp: release_def processQueue_def putState_def activeOf_def queueOf_def getState_def
      freshState_def split: prod.splits option.splits list.splits)

lemma getState_snd_activeOf [simp]: "activeOf (snd (getState now mid rl)) mid = activeOf rl mid"
  by (simp add: getState_def activeOf_def freshState_def split: option.splits)

lemma getState_snd_windowOf [simp]: "windowOf (snd (getState now mid rl)) mid = windowOf rl mid"
  by (simp add: getState_def windowOf_def freshState_def split: option.splits)

lemma getState_window [simp]: "requestsInWindow (fst (getState now mid rl)) = windowOf rl mid"
  by (simp add: getState_def windowOf_def freshState_def split: option.splits)

lemma getState_idem [simp]:
  "getState now' mid (snd (getState now mid rl)) = getState now mid rl"
  by (simp add: getState_def split: option.splits)

lemma simRun_Cons [simp]:
  "simRun now cfg (c # calls) s = simRun now cfg calls (simStep now cfg s c)"
  by (simp add: simRun_def)

lemma simRun_Nil [simp]: "simRun now cfg [] s = s"
  by (simp add: simRun_def)

lemma acquire_concurrency:
  assumes "rateLimit cfg = Some (Concurrency, L) \<or> (rateLimit cfg = None \<and> L = 5)"
  shows "acquire created now cfg cost caller rl =
         waitForConcurrency created (modelId cfg) L caller rl"
  using assms
  by (auto simp: acquire_def waitForConcurrency_def case_prod_beta)

lemma putState_states [simp]: "states (putState mid st rl) mid = Some st"
  by (simp add: putState_def)

lemma processQueue_states:
  "states rl mid = Some st \<Longrightarrow> states (snd (processQueue now mid rl)) mid = Some st"
  by (simp add: processQueue_def getState_def split: option.splits list.splits)

lemma release_state_exists: "\<exists>st. states (snd (release now mid rl)) mid = Some st"
  by (simp add: release_def case_prod_beta Let_def processQueue_states)

lemma resumeQueued_known:
  "states rl mid = Some st \<Longrightarrow>
   activeOf (resumeQueued mid rl) mid = activeOf rl mid + 1 \<and>
   queueOf (resumeQueued mid rl) mid = queueOf rl mid"
  by (simp add: resumeQueued_def putState_def activeOf_def queueOf_def)

lemma resumeQueued_after_release:
  "activeOf (resumeQueued mid (snd (release now mid rl))) mid = activeOf (snd (release now mid rl)) mid + 1
   \<and> queueOf (resumeQueued mid (snd (release now mid rl))) mid = queueOf (snd (release now mid rl)) mid"
  using release_state_exists [of now mid rl] resumeQueued_known by blast

lemma simStep_acquire_admits:
  assumes "rateLimit cfg = Some (Concurrency, L) \<or> (rateLimit cfg = None \<and> L = 5)"
    and "activeOf (limiter s) (modelId cfg) < L"
  shows "admittedLog (simStep now cfg s (Acquire c)) = admittedLog s @ [c]"
    and "releasedLog (simStep now cfg s (Acquire c)) = releasedLog s"
    and "activeOf (limiter (simStep now cfg s (Acquire c))) (modelId cfg) =
           activeOf (limiter s) (modelId cfg) + 1"
    and "queueOf (limiter (simStep now cfg s (Acquire c))) (modelId cfg) =
           queueOf (limiter s) (modelId cfg)"
  using waitForConcurrency_admits [OF assms(2), of now c]
  by (auto simp: simStep_def acquire_concurrency [OF assms(1)] split: prod.splits admission.splits)

lemma simStep_acquire_queues:
  assumes "rateLimit cfg = Some (Concurrency, L) \<or> (rateLimit cfg = None \<and> L = 5)"
    and "\<not> activeOf (limiter s) (modelId cfg) < L"
  shows "admittedLog (simStep now cfg s (Acquire c)) = admittedLog s"
    and "releasedLog (simStep now cfg s (Acquire c)) = releasedLog s"
    and "activeOf (limiter (simStep now cfg s (Acquire c))) (modelId cfg) =
           activeOf (limiter s) (modelId cfg)"
    and "queueOf (limiter (simStep now cfg s (Acquire c))) (modelId cfg) =
           queueOf (limiter s) (modelId cfg) @ [(c, 0)]"
  using waitForConcurrency_queues [OF assms(2), of now c]
  by (auto simp: simStep_def acquire_concurrency [OF assms(1)] split: prod.splits admission.splits)

lemma simStep_release_resolves:
  assumes "queueOf (limiter s) (modelId cfg) = (c, cost) # rest"
  shows "admittedLog (simStep now cfg s (Release who)) = admittedLog s @ [c]"
    and "releasedLog (simStep now cfg s (Release who)) =
           releasedLog s @ (case who of None \<Rightarrow> [] | Some w \<Rightarrow> [w])"
    and "activeOf (limiter (simStep now cfg s (Release who))) (modelId cfg) =
           max 0 (activeOf (limiter s) (modelId cfg) - 1) + 1"
    and "queueOf (limiter (simStep now cfg s (Release who))) (modelId cfg) = rest"
  using release_resolves [OF assms, of now]
    resumeQueued_after_release [of "modelId cfg" now "limiter s"]
  by (auto simp: simStep_def split: prod.splits option.splits)

lemma simRun_acquires:
  assumes cfg: "rateLimit cfg = Some (Concurrency, L) \<or> (rateLimit cfg = None \<and> L = 5)"
  shows "activeOf (limiter s) (modelId cfg) \<le> L \<Longrightarrow>
         admittedLog (simRun now cfg (map Acquire cs) s) =
           admittedLog s @ take (nat (L - activeOf (limiter s) (modelId cfg))) cs \<and>
         releasedLog (simRun now cfg (map Acquire cs) s) = releasedLog s \<and>
         queueOf (limiter (simRun now cfg (map Acquire cs) s)) (modelId cfg) =
           queueOf (limiter s) (modelId cfg) @
           map (\<lambda>c. (c, 0)) (drop (nat (L - activeOf (limiter s) (modelId cfg))) cs) \<and>
         activeOf (limiter (simRun now cfg (map Acquire cs) s)) (modelId cfg) =
           activeOf (limiter s) (modelId cfg) +
           int (min (nat (L - activeOf (limiter s) (modelId cfg))) (length cs))"
proof (induction cs arbitrary: s)
  case Nil
  then show ?case by simp
next
  case (Cons c cs)
  let ?s1 = "simStep now cfg s (Acquire c)"
  show ?case
  proof (cases "activeOf (limiter s) (modelId cfg) < L")
    case True
    note st = simStep_acquire_admits [OF cfg True, of now c]
    have le: "activeOf (limiter ?s1) (modelId cfg) \<le> L"
      using True st(3) by simp
    have n: "nat (L - activeOf (limiter s) (modelId cfg)) =
             Suc (nat (L - activeOf (limiter ?s1) (modelId cfg)))"
      using True st(3) by simp
    show ?thesis
      using Cons.IH [OF le] by (simp add: st n)
  next
    case False
    note st = simStep_acquire_queues [OF cfg False, of now c]
    have le: "activeOf (limiter ?s1) (modelId cfg) \<le> L"
      using Cons.prems st(3) by simp
    have n: "nat (L - activeOf (limiter s) (modelId cfg)) = 0"
      using False by simp
    show ?thesis
      using Cons.IH [OF le] by (simp add: st n)
  qed
qed

lemma simRun_releases:
  "queueOf (limiter s) (modelId cfg) = map (\<lambda>c. (c, 0)) ws \<Longrightarrow> length whos \<le> length ws \<Longrightarrow>
   admittedLog (simRun now cfg (map Release whos) s) = admittedLog s @ take (length whos) ws \<and>
   queueOf (limiter (simRun now cfg (map Release whos) s)) (modelId cfg) =
     map (\<lambda>c. (c, 0)) (drop (length whos) ws)"
proof (induction whos arbitrary: s ws)
  case Nil
  then show ?case by simp
next
  case (Cons who whos)
  then obtain w ws' where ws: "ws = w # ws'"
    by (cases ws) auto
  let ?s1 = "simStep now cfg s (Release who)"
  have q: "queueOf (limiter s) (modelId cfg) = (w, 0) # map (\<lambda>c. (c, 0)) ws'"
    using Cons.prems(1) ws by simp
  note st = simStep_release_resolves [OF q, of now who]
  have "length whos \<le> length ws'"
    using Cons.prems(2) ws by simp
  from Cons.IH [OF st(4) this] show ?case
    by (simp add: st ws)
qed

lemma simRun_append:
  "simRun now cfg (a @ b) s = simRun now cfg b (simRun now cfg a s)"
  by (simp add: simRun_def)

lemma newSim_fresh:
  "activeOf (limiter newSim) mid = 0" "queueOf (limiter newSim) mid = []"
  "admittedLog newSim = []" "releasedLog newSim = []"
  by (simp_all add: newSim_def newLimiter_def activeOf_def queueOf_def)

text \<open>
  C4.  Concurrency strategy with limit \<open>L\<close> (a configured limit, or the default of 5 for
  a resource without one), on a resource with no active request and no waiter: when more
  than \<open>L\<close> callers call \<^verbatim>\<open>acquire\<close> and nobody releases, the first \<open>L\<close> are admitted at
  once and the others are parked in the wait queue in the order of their calls; after any
  number of \<^verbatim>\<open>release\<close> calls that follow, the admitted callers are the first \<open>L\<close> plus
  one more waiter per release, in the order of their \<^verbatim>\<open>acquire\<close> calls.
\<close>

theorem concurrency_admits_limit_then_fifo:
  assumes "rateLimit cfg = Some (Concurrency, int L) \<or> (rateLimit cfg = None \<and> L = 5)"
    and "activeOf (limiter s0) (modelId cfg) = 0"
    and "queueOf (limiter s0) (modelId cfg) = []"
    and "admittedLog s0 = []"
    and "L < length callers"
    and "length whos \<le> length callers - L"
  shows "admittedLog (simRun now cfg (map Acquire callers) s0) = take L callers \<and>
         map fst (queueOf (limiter (simRun now cfg (map Acquire callers) s0)) (modelId cfg)) =
           drop L callers \<and>
         admittedLog (simRun now' cfg (map Release whos)
           (simRun now cfg (map Acquire callers) s0)) = take (L + length whos) callers \<and>
         map fst (queueOf (limiter (simRun now' cfg (map Release whos)
           (simRun now cfg (map Acquire callers) s0))) (modelId cfg)) =
           drop (L + length whos) callers"
proof -
  let ?s1 = "simRun now cfg (map Acquire callers) s0"
  have cfg: "rateLimit cfg = Some (Concurrency, int L) \<or> (rateLimit cfg = None \<and> int L = 5)"
    using assms(1) by auto
  have "activeOf (limiter s0) (modelId cfg) \<le> int L"
    using assms(2) by simp
  from simRun_acquires [OF cfg this, of now callers]
  have a: "admittedLog ?s1 = take L callers"
    and q: "queueOf (limiter ?s1) (modelId cfg) = map (\<lambda>c. (c, 0)) (drop L callers)"
    using assms(2,3,4) by simp_all
  have "length whos \<le> length (drop L callers)"
    using assms(6) by simp
  from simRun_releases [OF q this, of now']
  have "admittedLog (simRun now' cfg (map Release whos) ?s1) =
          take L callers @ take (length whos) (drop L callers)"
    and "queueOf (limiter (simRun now' cfg (map Release whos) ?s1)) (modelId cfg) =
          map (\<lambda>c. (c, 0)) (drop (length whos) (drop L callers))"
    by (simp_all add: a)
  then show ?thesis
    using a q by (simp add: take_add comp_def add.commute)
qed

theorem concurrency_admits_limit_then_fifo_witness:
  "admittedLog (simRun 0 \<lparr>modelId = ''m'', rateLimit = Some (Concurrency, 2)\<rparr>
      (map Acquire [10, 11, 12, 13, 14]) newSim) = [10, 11] \<and>
   map fst (queueOf (limiter (simRun 0 \<lparr>modelId = ''m'', rateLimit = Some (Concurrency, 2)\<rparr>
      (map Acquire [10, 11, 12, 13, 14]) newSim)) ''m'') = [12, 13, 14] \<and>
   admittedLog (simRun 1 \<lparr>modelId = ''m'', rateLimit = Some (Concurrency, 2)\<rparr>
      (map Release [Some 11, Some 10])
      (simRun 0 \<lparr>modelId = ''m'', rateLimit = Some (Concurrency, 2)\<rparr>
         (map Acquire [10, 11, 12, 13, 14]) newSim)) = [10, 11, 12, 13] \<and>
   map fst (queueOf (limiter (simRun 1 \<lparr>modelId = ''m'', rateLimit = Some (Concurrency, 2)\<rparr>
      (map Release [Some 11, Some 10])
      (simRun 0 \<lparr>modelId = ''m'', rateLimit = Some (Concurrency, 2)\<rparr>
         (map Acquire [10, 11, 12, 13, 14]) newSim))) ''m'') = [14]"
  using concurrency_admits_limit_then_fifo
    [of "\<lparr>modelId = ''m'', rateLimit = Some (Concurrency, 2)\<rparr>" 2 newSim
        "[10, 11, 12, 13, 14]" "[Some 11, Some 10]" 0 1]
  by (simp add: newSim_fresh)

lemma stillActive_all: "releasedLog s = [] \<Longrightarrow> stillActive s = admittedLog s"
  by (simp add: stillActive_def)

text \<open>
  C10.  \<^verbatim>\<open>release\<close> on a resource with a non-empty wait queue takes the first waiter off the
  queue and resolves it, whatever the limit and the count of active requests are (the
  count is decremented and floored at 0); the waiter is then admitted.  So a \<^verbatim>\<open>release\<close>
  that no admitted caller owes admits a waiter on top of the callers that are still
  active: after \<open>L + 1\<close> calls of \<^verbatim>\<open>acquire\<close> and one such \<^verbatim>\<open>release\<close>, \<open>L + 1\<close> admitted
  callers are active under the limit \<open>L\<close>.
\<close>

theorem release_resolves_unconditionally:
  assumes "queueOf (limiter s) (modelId cfg) = (c, cost) # rest"
    and "rateLimit cfg = Some (Concurrency, int L)"
  shows "fst (release now (modelId cfg) (limiter s)) = Some c \<and>
         queueOf (snd (release now (modelId cfg) (limiter s))) (modelId cfg) = rest \<and>
         activeOf (snd (release now (modelId cfg) (limiter s))) (modelId cfg) =
           max 0 (activeOf (limiter s) (modelId cfg) - 1) \<and>
         admittedLog (simStep now cfg s (Release None)) = admittedLog s @ [c] \<and>
         releasedLog (simStep now cfg s (Release None)) = releasedLog s \<and>
         stillActive (simRun now cfg (map Acquire [0 ..< Suc L] @ [Release None]) newSim) =
           [0 ..< Suc L] \<and>
         length (stillActive
           (simRun now cfg (map Acquire [0 ..< Suc L] @ [Release None]) newSim)) > L"
proof -
  have r: "fst (release now (modelId cfg) (limiter s)) = Some c \<and>
         queueOf (snd (release now (modelId cfg) (limiter s))) (modelId cfg) = rest \<and>
         activeOf (snd (release now (modelId cfg) (limiter s))) (modelId cfg) =
           max 0 (activeOf (limiter s) (modelId cfg) - 1)"
    using release_resolves [OF assms(1), of now] by simp
  have st: "admittedLog (simStep now cfg s (Release None)) = admittedLog s @ [c] \<and>
         releasedLog (simStep now cfg s (Release None)) = releasedLog s"
    using simStep_release_resolves [OF assms(1), of now None] by simp
  let ?s1 = "simRun now cfg (map Acquire [0 ..< Suc L]) newSim"
  have cfg: "rateLimit cfg = Some (Concurrency, int L) \<or> (rateLimit cfg = None \<and> int L = 5)"
    using assms(2) by simp
  have "activeOf (limiter newSim) (modelId cfg) \<le> int L"
    by (simp add: newSim_fresh)
  from simRun_acquires [OF cfg this, of now "[0 ..< Suc L]"]
  have a: "admittedLog ?s1 = [0 ..< L]"
    and rl: "releasedLog ?s1 = []"
    and q: "queueOf (limiter ?s1) (modelId cfg) = (L, 0) # []"
    by (simp_all add: newSim_fresh)
  note fin = simStep_release_resolves [OF q, of now None]
  have "releasedLog (simStep now cfg ?s1 (Release None)) = []"
    using fin(2) rl by simp
  then have "stillActive (simStep now cfg ?s1 (Release None)) = [0 ..< Suc L]"
    using fin(1) a by (simp add: stillActive_all)
  then have "stillActive (simRun now cfg (map Acquire [0 ..< Suc L] @ [Release None]) newSim) =
           [0 ..< Suc L]"
    by (simp only: simRun_append simRun_Cons simRun_Nil)
  then show ?thesis
    using r st by simp
qed

theorem release_resolves_unconditionally_witness:
  "queueOf (limiter (simRun 0 \<lparr>modelId = ''m'', rateLimit = Some (Concurrency, 2)\<rparr>
      (map Acquire [0, 1, 2]) newSim)) ''m'' = [(2, 0)] \<and>
   activeOf (limiter (simRun 0 \<lparr>modelId = ''m'', rateLimit = Some (Concurrency, 2)\<rparr>
      (map Acquire [0, 1, 2]) newSim)) ''m'' = 2 \<and>
   fst (release 1 ''m'' (limiter (simRun 0 \<lparr>modelId = ''m'', rateLimit = Some (Concurrency, 2)\<rparr>
      (map Acquire [0, 1, 2]) newSim))) = Some 2 \<and>
   stillActive (simRun 1 \<lparr>modelId = ''m'', rateLimit = Some (Concurrency, 2)\<rparr>
      (map Acquire [0 ..< Suc 2] @ [Release None]) newSim) = [0 ..< Suc 2]"
proof -
  let ?cfg = "\<lparr>modelId = ''m'', rateLimit = Some (Concurrency, 2)\<rparr>"
  let ?s = "simRun 0 ?cfg (map Acquire [0, 1, 2]) newSim"
  have cfg: "rateLimit ?cfg = Some (Concurrency, 2) \<or> (rateLimit ?cfg = None \<and> (2::int) = 5)"
    by simp
  have "activeOf (limiter newSim) (modelId ?cfg) \<le> 2"
    by (simp add: newSim_fresh)
  from simRun_acquires [OF cfg this, of 0 "[0, 1, 2]"]
  have q: "queueOf (limiter ?s) (modelId ?cfg) = (2, 0) # []"
    and a: "activeOf (limiter ?s) ''m'' = 2"
    by (simp_all add: newSim_fresh)
  have c: "rateLimit ?cfg = Some (Concurrency, int 2)" by simp
  from release_resolves_unconditionally [OF q c, of 1] q a
  show ?thesis by simp
qed

lemma putState_windowOf [simp]: "windowOf (putState mid st rl) mid = requestsInWindow st"
  by (simp add: windowOf_def)

lemma filter_Cons_holds: "filter P xs = y # ys \<Longrightarrow> P y"
  by (metis filter_eq_ConsD)

lemma waitForRPM_admits:
  "int (length (filter (\<lambda>t. t > now - 60000) (windowOf rl mid))) < R \<Longrightarrow>
   fst (waitForRPM now mid R rl) = Admitted \<and>
   windowOf (snd (waitForRPM now mid R rl)) mid =
     filter (\<lambda>t. t > now - 60000) (windowOf rl mid) @ [now]"
  by (simp add: waitForRPM_def case_prod_beta Let_def)

lemma waitForRPM_sleeps:
  assumes "\<not> int (length (filter (\<lambda>t. t > now - 60000) (windowOf rl mid))) < R" and "1 \<le> R"
  shows "fst (waitForRPM now mid R rl) =
           Sleeping (of_int (hd (filter (\<lambda>t. t > now - 60000) (windowOf rl mid)) + 60000 - now)) \<and>
         windowOf (snd (waitForRPM now mid R rl)) mid =
           filter (\<lambda>t. t > now - 60000) (windowOf rl mid) \<and>
         0 < hd (filter (\<lambda>t. t > now - 60000) (windowOf rl mid)) + 60000 - now"
proof -
  let ?w = "filter (\<lambda>t. t > now - 60000) (windowOf rl mid)"
  from assms obtain oldest rest where w: "?w = oldest # rest"
    by (cases ?w) auto
  then have "oldest > now - 60000"
    by (rule filter_Cons_holds)
  then show ?thesis
    using assms(1) w by (simp add: waitForRPM_def case_prod_beta Let_def)
qed

lemma countActive_windowOf [simp]: "windowOf (countActive mid rl) mid = windowOf rl mid"
  by (simp add: countActive_def windowOf_def putState_def split: option.splits)

lemma waitForRPM_getState [simp]:
  "fst (waitForRPM now mid R (snd (getState created mid rl))) = fst (waitForRPM now mid R rl)"
  "windowOf (snd (waitForRPM now mid R (snd (getState created mid rl)))) mid =
     windowOf (snd (waitForRPM now mid R rl)) mid"
  by (simp_all add: waitForRPM_def case_prod_beta Let_def split: list.splits)

lemma acquire_rpm:
  assumes "rateLimit cfg = Some (Rpm, R)"
  shows "fst (acquire created now cfg cost caller rl) = fst (waitForRPM now (modelId cfg) R rl)"
    and "windowOf (snd (acquire created now cfg cost caller rl)) (modelId cfg) =
           windowOf (snd (waitForRPM now (modelId cfg) R rl)) (modelId cfg)"
proof -
  let ?rl1 = "snd (getState created (modelId cfg) rl)"
  let ?w = "waitForRPM now (modelId cfg) R ?rl1"
  have a: "acquire created now cfg cost caller rl =
             (if fst ?w = Admitted then (Admitted, countActive (modelId cfg) (snd ?w)) else ?w)"
    using assms
    by (cases ?w)
      (auto simp del: waitForRPM_getState simp add: acquire_def case_prod_beta
        split: admission.splits)
  show "fst (acquire created now cfg cost caller rl) = fst (waitForRPM now (modelId cfg) R rl)"
    by (simp add: a)
  show "windowOf (snd (acquire created now cfg cost caller rl)) (modelId cfg) =
           windowOf (snd (waitForRPM now (modelId cfg) R rl)) (modelId cfg)"
    by (simp add: a)
qed

lemma full_window_sleeps:
  assumes "windowOf rl mid = [t1, t2, t3]" and "t1 \<le> t2" and "t2 \<le> t3" and "now < t1 + 60000"
  shows "fst (waitForRPM now mid 3 rl) = Sleeping (of_int (t1 + 60000 - now))"
    and "windowOf (snd (waitForRPM now mid 3 rl)) mid = [t1, t2, t3]"
proof -
  have w: "filter (\<lambda>t. t > now - 60000) (windowOf rl mid) = [t1, t2, t3]"
    using assms by simp
  then have "\<not> int (length (filter (\<lambda>t. t > now - 60000) (windowOf rl mid))) < 3"
    by simp
  from waitForRPM_sleeps [OF this] w
  show "fst (waitForRPM now mid 3 rl) = Sleeping (of_int (t1 + 60000 - now))"
    and "windowOf (snd (waitForRPM now mid 3 rl)) mid = [t1, t2, t3]"
    by simp_all
qed

lemma acquireRPM_not_early:
  assumes "t1 \<le> t2" and "t2 \<le> t3"
  shows "windowOf rl mid = [t1, t2, t3] \<Longrightarrow> acquireRPM mid 3 clock rl = (Some T, rl') \<Longrightarrow>
         t1 + 60000 \<le> T"
proof (induction clock arbitrary: rl)
  case Nil
  then show ?case by simp
next
  case (Cons now later)
  show ?case
  proof (cases "now < t1 + 60000")
    case True
    note sl = full_window_sleeps [OF Cons.prems(1) assms True]
    obtain a rl1 where r: "waitForRPM now mid 3 rl = (a, rl1)"
      by (cases "waitForRPM now mid 3 rl")
    with sl have a: "a = Sleeping (of_int (t1 + 60000 - now))"
      and w: "windowOf rl1 mid = [t1, t2, t3]"
      by simp_all
    from Cons.prems(2) r a have "acquireRPM mid 3 later rl1 = (Some T, rl')"
      by simp
    from Cons.IH [OF w this] show ?thesis .
  next
    case False
    obtain a rl1 where r: "waitForRPM now mid 3 rl = (a, rl1)"
      by (cases "waitForRPM now mid 3 rl")
    show ?thesis
    proof (cases a)
      case Admitted
      with Cons.prems(2) r have "T = now" by simp
      with False show ?thesis by simp
    next
      case Queued
      have "fst (waitForRPM now mid 3 rl) \<noteq> Queued"
        by (simp add: waitForRPM_def case_prod_beta Let_def split: list.splits)
      with r Queued show ?thesis by simp
    next
      case (Sleeping ms)
      have "int (length (filter (\<lambda>t. t > now - 60000) (windowOf rl mid))) < 3"
        using False Cons.prems(1) by simp
      from waitForRPM_admits [OF this] r Sleeping show ?thesis by simp
    qed
  qed
qed

lemma windowOf_fresh: "states rl mid = None \<Longrightarrow> windowOf rl mid = []"
  by (simp add: windowOf_def)

lemma acquire_rpm_admits:
  assumes "rateLimit cfg = Some (Rpm, R)"
    and "int (length (filter (\<lambda>t. t > now - 60000) (windowOf rl (modelId cfg)))) < R"
  shows "fst (acquire created now cfg cost caller rl) = Admitted"
    and "windowOf (snd (acquire created now cfg cost caller rl)) (modelId cfg) =
           filter (\<lambda>t. t > now - 60000) (windowOf rl (modelId cfg)) @ [now]"
  using waitForRPM_admits [OF assms(2)] by (simp_all add: acquire_rpm [OF assms(1)])

lemma three_admitted:
  assumes "rateLimit cfg = Some (Rpm, 3)" and "states rl (modelId cfg) = None"
    and "t1 \<le> t2" and "t2 \<le> t3" and "t3 < t1 + 60000"
  shows "fst (acquire s1 t1 cfg k1 c1 rl) = Admitted"
    and "fst (acquire s2 t2 cfg k2 c2 (snd (acquire s1 t1 cfg k1 c1 rl))) = Admitted"
    and "fst (acquire s3 t3 cfg k3 c3 (snd (acquire s2 t2 cfg k2 c2 (snd (acquire s1 t1 cfg k1 c1 rl))))) = Admitted"
    and "windowOf (snd (acquire s3 t3 cfg k3 c3 (snd (acquire s2 t2 cfg k2 c2
           (snd (acquire s1 t1 cfg k1 c1 rl)))))) (modelId cfg) = [t1, t2, t3]"
proof -
  let ?mid = "modelId cfg"
  let ?rl1 = "snd (acquire s1 t1 cfg k1 c1 rl)"
  let ?rl2 = "snd (acquire s2 t2 cfg k2 c2 ?rl1)"
  let ?rl3 = "snd (acquire s3 t3 cfg k3 c3 ?rl2)"
  have "int (length (filter (\<lambda>t. t > t1 - 60000) (windowOf rl ?mid))) < 3"
    by (simp add: windowOf_fresh assms(2))
  from acquire_rpm_admits [OF assms(1) this, where created = s1 and cost = k1 and caller = c1]
  have a1: "fst (acquire s1 t1 cfg k1 c1 rl) = Admitted" and w1: "windowOf ?rl1 ?mid = [t1]"
    by (simp_all add: windowOf_fresh assms(2))
  have "int (length (filter (\<lambda>t. t > t2 - 60000) (windowOf ?rl1 ?mid))) < 3"
    by (simp add: w1)
  from acquire_rpm_admits [OF assms(1) this, where created = s2 and cost = k2 and caller = c2]
  have a2: "fst (acquire s2 t2 cfg k2 c2 ?rl1) = Admitted" and w2: "windowOf ?rl2 ?mid = [t1, t2]"
    using assms(3,4,5) by (simp_all add: w1)
  have "int (length (filter (\<lambda>t. t > t3 - 60000) (windowOf ?rl2 ?mid))) < 3"
    by (simp add: w2)
  from acquire_rpm_admits [OF assms(1) this, where created = s3 and cost = k3 and caller = c3]
  have a3: "fst (acquire s3 t3 cfg k3 c3 ?rl2) = Admitted" and w3: "windowOf ?rl3 ?mid = [t1, t2, t3]"
    using assms(3,4,5) by (simp_all add: w2)
  show "fst (acquire s1 t1 cfg k1 c1 rl) = Admitted"
    and "fst (acquire s2 t2 cfg k2 c2 ?rl1) = Admitted"
    and "fst (acquire s3 t3 cfg k3 c3 ?rl2) = Admitted"
    and "windowOf ?rl3 ?mid = [t1, t2, t3]"
    by (fact a1 a2 a3 w3)+
qed

text \<open>
  C7.  The claim: under the RPM strategy with limit \<open>R\<close> a call prunes the window, admits
  and appends \<open>now\<close> when fewer than \<open>R\<close> timestamps remain, and otherwise waits
  \<open>oldest + 60000 - now\<close>.  With \<open>R = 0\<close> and an empty window not fewer than \<open>R\<close>
  timestamps remain, there is no oldest one, and the call is admitted at once.
\<close>

theorem waitForRPM_zero_limit_counterexample:
  "\<not> int (length (filter (\<lambda>t. t > 0 - 60000) (windowOf newLimiter ''m''))) < 0 \<and>
   fst (waitForRPM 0 ''m'' 0 newLimiter) = Admitted \<and>
   windowOf (snd (waitForRPM 0 ''m'' 0 newLimiter)) ''m'' = [0]"
  by (simp add: waitForRPM_def getState_def newLimiter_def freshState_def windowOf_def
      putState_def)

text \<open>
  C7, amended: for a limit \<open>R \<ge> 1\<close>.  A call prunes the window to the timestamps newer
  than \<open>now - 60000\<close>; when fewer than \<open>R\<close> remain it is admitted and \<open>now\<close> is appended,
  otherwise it sleeps \<open>oldest + 60000 - now\<close> milliseconds and leaves the pruned window.
  With \<open>R = 3\<close>, after three calls at \<open>t1 \<le> t2 \<le> t3 < t1 + 60000\<close> on a new resource
  (all admitted), a fourth call before \<open>t1 + 60000\<close> sleeps until \<open>t1 + 60000\<close>, and
  whatever the clock readings of its re-evaluations are, it is admitted at a reading
  \<open>T \<ge> t1 + 60000\<close>.
\<close>

theorem waitForRPM_sliding_window:
  assumes "1 \<le> R"
    and "rateLimit cfg = Some (Rpm, 3)" and "states rl0 (modelId cfg) = None"
    and "t1 \<le> t2" and "t2 \<le> t3" and "t3 < t1 + 60000"
    and "rl3 = snd (acquire s3 t3 cfg k3 c3 (snd (acquire s2 t2 cfg k2 c2 (snd (acquire s1 t1 cfg k1 c1 rl0)))))"
  shows "(if int (length (filter (\<lambda>t. t > now - 60000) (windowOf rl mid))) < R
          then fst (waitForRPM now mid R rl) = Admitted \<and>
               windowOf (snd (waitForRPM now mid R rl)) mid =
                 filter (\<lambda>t. t > now - 60000) (windowOf rl mid) @ [now]
          else fst (waitForRPM now mid R rl) =
                 Sleeping (of_int (hd (filter (\<lambda>t. t > now - 60000) (windowOf rl mid))
                             + 60000 - now)) \<and>
               windowOf (snd (waitForRPM now mid R rl)) mid =
                 filter (\<lambda>t. t > now - 60000) (windowOf rl mid)) \<and>
         fst (acquire s1 t1 cfg k1 c1 rl0) = Admitted \<and>
         fst (acquire s2 t2 cfg k2 c2 (snd (acquire s1 t1 cfg k1 c1 rl0))) = Admitted \<and>
         fst (acquire s3 t3 cfg k3 c3 (snd (acquire s2 t2 cfg k2 c2 (snd (acquire s1 t1 cfg k1 c1 rl0)))))
           = Admitted \<and>
         (\<forall>t4. t4 < t1 + 60000 \<longrightarrow>
            fst (acquire s4 t4 cfg k4 c4 rl3) = Sleeping (of_int (t1 + 60000 - t4))) \<and>
         (\<forall>clock T rl'. acquireRPM (modelId cfg) 3 clock rl3 = (Some T, rl') \<longrightarrow> t1 + 60000 \<le> T)"
proof -
  have first: "if int (length (filter (\<lambda>t. t > now - 60000) (windowOf rl mid))) < R
          then fst (waitForRPM now mid R rl) = Admitted \<and>
               windowOf (snd (waitForRPM now mid R rl)) mid =
                 filter (\<lambda>t. t > now - 60000) (windowOf rl mid) @ [now]
          else fst (waitForRPM now mid R rl) =
                 Sleeping (of_int (hd (filter (\<lambda>t. t > now - 60000) (windowOf rl mid))
                             + 60000 - now)) \<and>
               windowOf (snd (waitForRPM now mid R rl)) mid =
                 filter (\<lambda>t. t > now - 60000) (windowOf rl mid)"
    using waitForRPM_admits [of now rl mid R] waitForRPM_sleeps [of now rl mid R] assms(1)
    by (cases "int (length (filter (\<lambda>t. t > now - 60000) (windowOf rl mid))) < R") simp_all
  note three = three_admitted [OF assms(2-6)]
  have w: "windowOf rl3 (modelId cfg) = [t1, t2, t3]"
    using three(4) assms(7) by simp
  have fourth: "fst (acquire s4 t4 cfg k4 c4 rl3) = Sleeping (of_int (t1 + 60000 - t4))"
    if "t4 < t1 + 60000" for t4
    using full_window_sleeps(1) [OF w assms(4,5) that] by (simp add: acquire_rpm(1) [OF assms(2)])
  have late: "t1 + 60000 \<le> T" if "acquireRPM (modelId cfg) 3 clock rl3 = (Some T, rl')"
    for clock T rl'
    using acquireRPM_not_early [OF assms(4,5) w that] .
  show ?thesis
    using first three(1-3) fourth late by blast
qed

theorem waitForRPM_sliding_window_witness:
  "fst (acquire 3000 3000 \<lparr>modelId = ''m'', rateLimit = Some (Rpm, 3)\<rparr> 0 4
     (snd (acquire 2000 2000 \<lparr>modelId = ''m'', rateLimit = Some (Rpm, 3)\<rparr> 0 3
       (snd (acquire 1000 1000 \<lparr>modelId = ''m'', rateLimit = Some (Rpm, 3)\<rparr> 0 2
         (snd (acquire 0 0 \<lparr>modelId = ''m'', rateLimit = Some (Rpm, 3)\<rparr> 0 1 newLimiter)))))))
   = Sleeping 57000 \<and>
   fst (acquire 2000 2000 \<lparr>modelId = ''m'', rateLimit = Some (Rpm, 3)\<rparr> 0 3
       (snd (acquire 1000 1000 \<lparr>modelId = ''m'', rateLimit = Some (Rpm, 3)\<rparr> 0 2
         (snd (acquire 0 0 \<lparr>modelId = ''m'', rateLimit = Some (Rpm, 3)\<rparr> 0 1 newLimiter)))))
   = Admitted"
proof -
  let ?cfg = "\<lparr>modelId = ''m'', rateLimit = Some (Rpm, 3)\<rparr>"
  let ?rl3 = "snd (acquire 2000 2000 ?cfg 0 3 (snd (acquire 1000 1000 ?cfg 0 2
                (snd (acquire 0 0 ?cfg 0 1 newLimiter)))))"
  have h: "(1::int) \<le> 3" "rateLimit ?cfg = Some (Rpm, 3)" "states newLimiter (modelId ?cfg) = None"
    "(0::int) \<le> 1000" "(1000::int) \<le> 2000" "(2000::int) < 0 + 60000"
    by (simp_all add: newLimiter_def)
  have "?rl3 = ?rl3" ..
  from waitForRPM_sliding_window [OF h this, where ?s4.0 = 3000 and ?k4.0 = 0 and ?c4.0 = 4]
  have "fst (acquire 2000 2000 ?cfg 0 3 (snd (acquire 1000 1000 ?cfg 0 2
                (snd (acquire 0 0 ?cfg 0 1 newLimiter))))) = Admitted"
    and "\<forall>t4. t4 < 0 + 60000 \<longrightarrow>
           fst (acquire 3000 t4 ?cfg 0 4 ?rl3) = Sleeping (of_int (0 + 60000 - t4))"
    by blast+
  then show ?thesis
    by simp
qed

lemma putState_tokensOf [simp]: "tokensOf (putState mid st rl) mid = tokens st"
  by (simp add: tokensOf_def)

text \<open>
  What does hold for \<^verbatim>\<open>tokens\<close>: it never exceeds the limit after a step of \<^verbatim>\<open>waitForTPM\<close>
  with a cost that is not negative, and it is not negative after a call that was admitted
  at once.
\<close>

lemma waitForTPM_tokens_le_limit:
  "0 \<le> cost \<Longrightarrow> tokensOf (snd (waitForTPM now mid limit cost rl)) mid \<le> of_int limit"
  by (auto simp add: waitForTPM_def case_prod_beta Let_def min_def)

lemma wakeTPM_tokens_le_limit:
  "0 \<le> cost \<Longrightarrow> states rl mid = Some st \<Longrightarrow>
   tokensOf (wakeTPM now2 mid limit cost rl) mid \<le> of_int limit"
  by (auto simp add: wakeTPM_def Let_def min_def)

lemma waitForTPM_admitted_nonneg:
  "fst (waitForTPM now mid limit cost rl) = Admitted \<Longrightarrow>
   0 \<le> tokensOf (snd (waitForTPM now mid limit cost rl)) mid"
  by (auto simp add: waitForTPM_def case_prod_beta Let_def split: if_splits)

text \<open>
  C2.  \<^verbatim>\<open>tokens\<close> is to stay within \<open>[0, limit]\<close> after every \<^verbatim>\<open>acquire\<close>.  The path of
  \<^verbatim>\<open>waitForTPM\<close> that has waited refills (capped at the limit) and debits without a check.
  Limit 60, one caller, cost 100: the call sleeps 100000 ms and leaves \<open>tokens = -40\<close>.
  Limit 60, two callers of cost 60 at the same instant: both sleep 60000 ms, both debit on
  waking, and \<open>tokens = -60\<close>.
\<close>

theorem waitForTPM_negative_tokens:
  "fst (acquire 0 0 \<lparr>modelId = ''m'', rateLimit = Some (Tpm, 60)\<rparr> 100 1 newLimiter) = Sleeping 100000 \<and>
   tokensOf (snd (resumeSleeping 100000 \<lparr>modelId = ''m'', rateLimit = Some (Tpm, 60)\<rparr> 100
     (snd (acquire 0 0 \<lparr>modelId = ''m'', rateLimit = Some (Tpm, 60)\<rparr> 100 1 newLimiter)))) ''m'' = - 40 \<and>
   fst (acquire 0 0 \<lparr>modelId = ''m'', rateLimit = Some (Tpm, 60)\<rparr> 60 1 newLimiter) = Sleeping 60000 \<and>
   fst (acquire 0 0 \<lparr>modelId = ''m'', rateLimit = Some (Tpm, 60)\<rparr> 60 2
     (snd (acquire 0 0 \<lparr>modelId = ''m'', rateLimit = Some (Tpm, 60)\<rparr> 60 1 newLimiter))) = Sleeping 60000 \<and>
   tokensOf (snd (resumeSleeping 60000 \<lparr>modelId = ''m'', rateLimit = Some (Tpm, 60)\<rparr> 60
     (snd (resumeSleeping 60000 \<lparr>modelId = ''m'', rateLimit = Some (Tpm, 60)\<rparr> 60
       (snd (acquire 0 0 \<lparr>modelId = ''m'', rateLimit = Some (Tpm, 60)\<rparr> 60 2
         (snd (acquire 0 0 \<lparr>modelId = ''m'', rateLimit = Some (Tpm, 60)\<rparr> 60 1 newLimiter)))))))) ''m''
     = - 60"
  by (simp add: acquire_def resumeSleeping_def waitForTPM_def wakeTPM_def getState_def
      newLimiter_def freshState_def putState_def countActive_def tokensOf_def)

text \<open>
  C9.  The claim: the state of a resource is created with \<open>tokens = 0\<close>, so under the TPM
  strategy the first \<^verbatim>\<open>acquire\<close> on a new resource with a cost \<open>c > 0\<close> is never admitted
  at once.  The state is created with \<open>lastRefill\<close> at the clock reading of \<^verbatim>\<open>getState\<close>,
  and \<^verbatim>\<open>waitForTPM\<close> reads the clock again: when the clock has moved on by one millisecond
  in between, a limit of 60000 refills one token, and a call of cost 1 is admitted at once.
\<close>

theorem acquire_tpm_fresh_admits_counterexample:
  "states newLimiter ''m'' = None \<and> (0::rat) < 1 \<and>
   fst (acquire 0 1 \<lparr>modelId = ''m'', rateLimit = Some (Tpm, 60000)\<rparr> 1 7 newLimiter) = Admitted"
  by (simp add: acquire_def waitForTPM_def getState_def newLimiter_def freshState_def
      putState_def countActive_def)

text \<open>
  C9, amended.  The state of a resource is created with \<open>tokens = 0\<close>.  Under the TPM
  strategy with a limit \<open>L > 0\<close>, the first \<^verbatim>\<open>acquire\<close> on a new resource with a cost
  \<open>c > 0\<close> finds the refill \<open>r = min L (L / 60000 * (now - created))\<close> for the time between
  the creation of the state and the clock reading of \<^verbatim>\<open>waitForTPM\<close>.  It is admitted at once
  only when \<open>c \<le> r\<close>; otherwise it sleeps \<open>(c - r) / (L / 60000)\<close> milliseconds.  When both
  clock readings are the same, it is never admitted at once and sleeps \<open>c * 60000 / L\<close>
  milliseconds.
\<close>

theorem acquire_tpm_fresh_waits:
  assumes "states rl (modelId cfg) = None" and "rateLimit cfg = Some (Tpm, L)"
    and "0 < L" and "0 < c"
  shows "tokens (fst (getState created (modelId cfg) rl)) = 0 \<and>
         fst (acquire created now cfg c caller rl) =
           (if c \<le> min (of_int L) (of_int L / 60000 * of_int (now - created))
            then Admitted
            else Sleeping ((c - min (of_int L) (of_int L / 60000 * of_int (now - created)))
                            / (of_int L / 60000))) \<and>
         fst (acquire now now cfg c caller rl) = Sleeping (c * 60000 / of_int L) \<and>
         tokensOf (snd (acquire now now cfg c caller rl)) (modelId cfg) = 0"
  using assms
  by (auto simp add: acquire_def waitForTPM_def getState_def freshState_def putState_def
      tokensOf_def countActive_def Let_def min_def field_simps)

theorem acquire_tpm_fresh_waits_witness:
  "fst (acquire 5 5 \<lparr>modelId = ''m'', rateLimit = Some (Tpm, 60)\<rparr> 30 1 newLimiter) = Sleeping 30000 \<and>
   fst (acquire 5 1005 \<lparr>modelId = ''m'', rateLimit = Some (Tpm, 60)\<rparr> 30 1 newLimiter) = Sleeping 29000 \<and>
   fst (acquire 5 1005 \<lparr>modelId = ''m'', rateLimit = Some (Tpm, 60)\<rparr> 1 1 newLimiter) = Admitted"
  using acquire_tpm_fresh_waits
      [of newLimiter "\<lparr>modelId = ''m'', rateLimit = Some (Tpm, 60)\<rparr>" 60 30 5 5 1]
    acquire_tpm_fresh_waits
      [of newLimiter "\<lparr>modelId = ''m'', rateLimit = Some (Tpm, 60)\<rparr>" 60 30 5 1005 1]
    acquire_tpm_fresh_waits
      [of newLimiter "\<lparr>modelId = ''m'', rateLimit = Some (Tpm, 60)\<rparr>" 60 1 5 1005 1]
  by (simp add: newLimiter_def)

end
